theory Spec2Isabelle
  imports Complex_Main "HOL-Library.Word"
begin

unbundle bit_operations_syntax

section \<open>The Touchstone input module (src/input/touchstone.c)\<close>

text \<open>
  A shallow embedding of the Touchstone reader of libsigrok. Every C function of
  \<^verbatim>\<open>touchstone.c\<close> that takes part in parsing is a HOL function of the same name.

  Conventions of the embedding:
  \<^item> \<^verbatim>\<open>double\<close> is \<open>real\<close>: rounding, infinities and NaN are not modelled;
  \<^item> \<^verbatim>\<open>size_t\<close> is \<open>nat\<close>; where a product or a conversion can leave the 64 bit
    range the reduction \<open>mod 2 ^ 64\<close> is written out (\<open>wrap64\<close>);
  \<^item> \<^verbatim>\<open>uint32_t\<close> and \<open>uint16_t\<close> in \<^verbatim>\<open>sqrti\<close> are \<open>32 word\<close> and \<open>16 word\<close>;
  \<^item> a buffer is the list of its allocated cells, a \<^verbatim>\<open>NULL\<close> pointer is \<open>None\<close>;
    an access outside the allocated cells, a \<^verbatim>\<open>NULL\<close> dereference and a signed overflow
    are undefined behaviour in C and give the return code \<open>UNDEFINED\<close>;
  \<^item> every function returns its C return code together with the updated context, so
    the fields a failing call has already written stay visible;
  \<^item> packets handed to the session and the messages of \<^verbatim>\<open>sr_warn\<close> and \<^verbatim>\<open>sr_err\<close>
    are appended to the ghost field \<open>session\<close> (messages of \<^verbatim>\<open>sr_spew\<close> are left out).
\<close>

subsection \<open>Scalars, enumerations and the context\<close>

type_synonym double = real

definition wrap64 :: "nat \<Rightarrow> nat" where
  "wrap64 x = x mod 2 ^ 64"

definition INITIAL_DATA_SET_SIZE :: nat where
  "INITIAL_DATA_SET_SIZE = 512"

datatype parameter_kinds =
    KIND_ZERO
  | KIND_SCATTERING_PARAMETERS
  | KIND_IMPEDANCE_PARAMETERS
  | KIND_ADMITTANCE_PARAMETERS
  | KIND_HYBRID_G_PARAMETERS
  | KIND_HYBRID_H_PARAMETERS

datatype number_formats = FORMAT_DB_ANGLE | FORMAT_MAGNITUDE_ANGLE | FORMAT_REAL_IMAGINARY

datatype parser_states =
    PS_START_FILE
  | PS_OPTION_LINE
  | PS_NUM_PORTS
  | PS_KEYWORDS
  | PS_REFERENCES
  | PS_SKIP_INFO
  | PS_DATA_LINES
  | PS_NOISE_DATA

datatype two_port_data_orders = TP_ORDER_12_21 | TP_ORDER_21_12

datatype matrix_formats = MF_FULL | MF_LOWER | MF_UPPER

datatype ret = SR_OK | SR_ERR | UNDEFINED

datatype sr_mq = SR_MQ_RESISTANCE | SR_MQ_FREQUENCY | SR_MQ_N_PORT_PARAMETER

datatype sr_unit = SR_UNIT_OHM | SR_UNIT_HERTZ | SR_UNIT_UNITLESS

datatype sr_mqflag =
    SR_MQFLAG_NONE
  | SR_MQFLAG_REFERENCE
  | SR_MQFLAG_TWO_PORT_NOISE_DATA
  | SR_MQFLAG_KIND parameter_kinds

datatype event =
    SR_DF_HEADER
  | SR_DF_FRAME_BEGIN
  | SR_DF_FRAME_END
  | SR_DF_END
  | SR_DF_ANALOG sr_mq sr_unit sr_mqflag "double list"
  | SR_LOG_WARN string
  | SR_LOG_ERR string

text \<open>
  \<^verbatim>\<open>struct context\<close>. The scratch members \<^verbatim>\<open>packet\<close>, \<^verbatim>\<open>analog\<close>, \<^verbatim>\<open>encoding\<close>,
  \<^verbatim>\<open>meaning\<close> and \<^verbatim>\<open>spec\<close> only carry a packet to \<^verbatim>\<open>sr_session_send\<close>; the packet
  is recorded in \<open>session\<close> instead. \<open>KIND_ZERO\<close> is the value 0 that \<^verbatim>\<open>g_malloc0\<close>
  leaves in \<^verbatim>\<open>parameter_kind\<close> before an option line is read. The ghost field \<open>heap\<close>
  gives the content of freshly allocated, uninitialised memory.
\<close>

record context_t =
  frequency_unit :: double
  last_freq :: double
  reference_resistance :: double
  reference_resistances :: "double list option"
  parameter_kind :: parameter_kinds
  number_format :: number_formats
  two_port_data_order :: two_port_data_orders
  matrix_format :: matrix_formats
  sweep_points :: nat
  sweep_points_noise :: nat
  state :: parser_states
  num_ports :: nat
  num_references_found :: nat
  num_vals_per_set :: nat
  file_version :: nat
  started :: bool
  data_set :: "double list option"
  data_set_size :: nat
  data_set_count :: nat
  sweep_freq :: "double list"
  sweep_data :: "double list"
  sweep_count :: nat
  sweep_size :: nat
  session :: "event list"
  heap :: "nat \<Rightarrow> double"

subsection \<open>Strings: the C library and GLib functions the parser calls\<close>

text \<open>
  These follow the documented behaviour of the C library and of GLib. A C string is a
  \<open>string\<close> without a NUL byte; \<open>c_str\<close> is the C string that starts a byte buffer.
\<close>

definition NUL :: char where
  "NUL = CHR 0x00"

definition c_str :: "string \<Rightarrow> string" where
  "c_str s = takeWhile (\<lambda>c. c \<noteq> NUL) s"

definition g_ascii_isspace :: "char \<Rightarrow> bool" where
  "g_ascii_isspace c =
     (c = CHR '' '' \<or> c = CHR 0x09 \<or> c = CHR 0x0A \<or> c = CHR 0x0C \<or> c = CHR 0x0D)"

definition isspace :: "char \<Rightarrow> bool" where
  "isspace c = (g_ascii_isspace c \<or> c = CHR 0x0B)"

definition g_ascii_toupper :: "char \<Rightarrow> char" where
  "g_ascii_toupper c =
     (if 97 \<le> (of_char c :: nat) \<and> (of_char c :: nat) \<le> 122
      then (case c of Char b0 b1 b2 b3 b4 b5 b6 b7 \<Rightarrow> Char b0 b1 b2 b3 b4 False b6 b7)
      else c)"

text \<open>\<^verbatim>\<open>line[0]\<close> of a C string: the terminating NUL when the string is empty.\<close>

definition char0 :: "string \<Rightarrow> char" where
  "char0 line = (case line of [] \<Rightarrow> NUL | c # cs \<Rightarrow> c)"

definition g_str_has_prefix :: "string \<Rightarrow> string \<Rightarrow> bool" where
  "g_str_has_prefix str pre = (take (length pre) str = pre)"

text \<open>\<^verbatim>\<open>strstr\<close> and \<^verbatim>\<open>g_strstr_len (.., -1, ..)\<close>: the offset of the first occurrence.\<close>

fun strstr :: "string \<Rightarrow> string \<Rightarrow> nat option" where
  "strstr [] needle = (if needle = [] then Some 0 else None)"
| "strstr (c # cs) needle =
     (if g_str_has_prefix (c # cs) needle then Some 0
      else map_option Suc (strstr cs needle))"

text \<open>\<^verbatim>\<open>g_strrstr_len\<close> for a needle of one character: the offset of its last occurrence.\<close>

fun strrchr_from :: "nat \<Rightarrow> string \<Rightarrow> char \<Rightarrow> nat option" where
  "strrchr_from k [] c = None"
| "strrchr_from k (x # xs) c =
     (case strrchr_from (Suc k) xs c of
        Some p \<Rightarrow> Some p
      | None \<Rightarrow> (if x = c then Some k else None))"

definition g_strrstr_len :: "string \<Rightarrow> nat \<Rightarrow> char \<Rightarrow> nat option" where
  "g_strrstr_len haystack len c = strrchr_from 0 (c_str (take len haystack)) c"

definition g_strchug :: "string \<Rightarrow> string" where
  "g_strchug s = dropWhile g_ascii_isspace s"

definition g_strchomp :: "string \<Rightarrow> string" where
  "g_strchomp s = rev (dropWhile g_ascii_isspace (rev s))"

definition g_strstrip :: "string \<Rightarrow> string" where
  "g_strstrip s = g_strchomp (g_strchug s)"

text \<open>
  \<^verbatim>\<open>g_strsplit (s, d, 0)\<close> for a delimiter of one character: no piece for the empty
  string, otherwise the pieces between the delimiters, the last one included when it is
  empty.
\<close>

fun split_pieces :: "char \<Rightarrow> string \<Rightarrow> string list" where
  "split_pieces d [] = [[]]"
| "split_pieces d (c # cs) =
     (if c = d then [] # split_pieces d cs
      else (case split_pieces d cs of
              p # ps \<Rightarrow> (c # p) # ps
            | [] \<Rightarrow> [[c]]))"

definition g_strsplit :: "string \<Rightarrow> char \<Rightarrow> string list" where
  "g_strsplit s d = (if s = [] then [] else split_pieces d s)"

subsection \<open>Number parsing (strutil.c)\<close>

definition is_digit :: "char \<Rightarrow> bool" where
  "is_digit c = (48 \<le> (of_char c :: nat) \<and> (of_char c :: nat) \<le> 57)"

definition digits_value :: "string \<Rightarrow> nat" where
  "digits_value ds = foldl (\<lambda>acc c. 10 * acc + ((of_char c :: nat) - 48)) 0 ds"

definition split_sign :: "string \<Rightarrow> bool \<times> string" where
  "split_sign s =
     (case s of
        [] \<Rightarrow> (False, [])
      | c # cs \<Rightarrow> (if c = CHR ''-'' then (True, cs)
                  else if c = CHR ''+'' then (False, cs)
                  else (False, c # cs)))"

text \<open>
  Modelled from the spec: \<^verbatim>\<open>sr_atod\<close> of strutil.c is not among the sources. The spec
  (4.5) says that a token is parsed "as a decimal floating-point number" and that "any
  parse failure fails the line". The model accepts, after optional white space, an
  optional sign, decimal digits with an optional fraction, and an optional exponent
  \<open>E\<close> with an optional sign (the text is already upper case); white space may follow,
  anything else is a parse failure (\<open>None\<close>).
\<close>

definition sr_atod :: "string \<Rightarrow> double option" where
  "sr_atod str =
     (let body = rev (dropWhile isspace (rev (dropWhile isspace str)));
          (neg, unsigned) = split_sign body;
          mant = takeWhile (\<lambda>c. c \<noteq> CHR ''E'') unsigned;
          expo = drop (length mant) unsigned;
          ip = takeWhile is_digit mant;
          rest = drop (length ip) mant;
          fp = (case rest of [] \<Rightarrow> Some []
                | c # f \<Rightarrow> (if c = CHR ''.'' \<and> list_all is_digit f then Some f else None));
          ex = (case expo of [] \<Rightarrow> Some (False, [CHR ''0''])
                | c # e \<Rightarrow> (let (eneg, ed) = split_sign e
                             in if ed \<noteq> [] \<and> list_all is_digit ed then Some (eneg, ed)
                                else None))
      in case (fp, ex) of
           (Some f, Some (eneg, ed)) \<Rightarrow>
             (if ip = [] \<and> f = [] then None
              else (let m = (real (digits_value (ip @ f)) / 10 ^ length f);
                        v = (if eneg then m / 10 ^ digits_value ed
                             else m * 10 ^ digits_value ed)
                    in Some (if neg then - v else v)))
         | _ \<Rightarrow> None)"

text \<open>
  Modelled from the spec: \<^verbatim>\<open>sr_atoi\<close> of strutil.c is not among the sources. The spec
  (4.4) gives the keywords a decimal integer argument. The model accepts, after optional
  white space, an optional sign and decimal digits whose value fits a C \<^verbatim>\<open>int\<close>; white
  space may follow, anything else is a parse failure.
\<close>

definition sr_atoi :: "string \<Rightarrow> int option" where
  "sr_atoi str =
     (let body = rev (dropWhile isspace (rev (dropWhile isspace str)));
          (neg, ds) = split_sign body
      in if ds = [] \<or> \<not> list_all is_digit ds then None
         else (let v = (if neg then - int (digits_value ds) else int (digits_value ds))
               in if - (2 ^ 31) \<le> v \<and> v < 2 ^ 31 then Some v else None))"

subsection \<open>Numeric conversions and matrix helpers\<close>

text \<open>
  A conversion works on the pair of doubles at its pointer. \<^verbatim>\<open>acos(-1.0)\<close> is
  \<open>arccos (- 1)\<close>, \<^verbatim>\<open>pow(10.0, x)\<close> is \<open>10 powr x\<close>; \<open>atan2\<close> is the two-argument arc
  tangent of the C library on the reals.
\<close>

definition atan2 :: "double \<Rightarrow> double \<Rightarrow> double" where
  "atan2 y x =
     (if 0 < x then arctan (y / x)
      else if x < 0 then (if 0 \<le> y then arctan (y / x) + pi else arctan (y / x) - pi)
      else if 0 < y then pi / 2
      else if y < 0 then - (pi / 2)
      else 0)"

definition convri :: "double \<times> double \<Rightarrow> double \<times> double" where
  "convri ab =
     (let r = fst ab; i = snd ab; a = sqrt (r * r + i * i)
      in if r = 0 \<and> i = 0 then (a, 0) else (a, atan2 i r))"

definition convma :: "double \<times> double \<Rightarrow> double \<times> double" where
  "convma ab = (fst ab, snd ab / 180 * arccos (- 1))"

definition convdba :: "double \<times> double \<Rightarrow> double \<times> double" where
  "convdba ab = convma (10 powr (fst ab / 20), snd ab)"

definition confNF2F :: "double \<Rightarrow> double" where
  "confNF2F a = 10 powr (a / 10)"

text \<open>
  \<^verbatim>\<open>conv_len (a, conv, N)\<close>: the list is the memory from the pointer \<open>a\<close> on. The caller
  checks that the \<open>2 * N\<close> cells exist.
\<close>

fun conv_len :: "double list \<Rightarrow> (double \<times> double \<Rightarrow> double \<times> double) \<Rightarrow> nat \<Rightarrow> double list" where
  "conv_len a conv N =
     (case (N, a) of
        (Suc n, x # y # rest) \<Rightarrow> fst (conv (x, y)) # snd (conv (x, y)) # conv_len rest conv n
      | _ \<Rightarrow> a)"

definition swap21_12 :: "double list \<Rightarrow> double list" where
  "swap21_12 vals =
     (let v1 = vals[2 := vals ! 4, 4 := vals ! 2]
      in v1[3 := v1 ! 5, 5 := v1 ! 3])"

text \<open>
  The loops of \<^verbatim>\<open>fill_lower\<close> and \<^verbatim>\<open>fill_upper\<close>. The outer bound \<^verbatim>\<open>N-1\<close> is computed
  in \<^verbatim>\<open>size_t\<close> and wraps for \<open>N = 0\<close>.
\<close>

definition copy_pair :: "nat \<Rightarrow> nat \<Rightarrow> double list \<Rightarrow> double list" where
  "copy_pair dst src a = (let a1 = a[2 * dst := a ! (2 * src)] in a1[2 * dst + 1 := a1 ! (2 * src + 1)])"

definition fill_lower :: "double list \<Rightarrow> nat \<Rightarrow> double list" where
  "fill_lower a N =
     fold (\<lambda>i a. fold (\<lambda>j a. copy_pair (j * N + i) (i * N + j) a) [i + 1 ..< N] a)
          [0 ..< wrap64 (N + 2 ^ 64 - 1)] a"

definition fill_upper :: "double list \<Rightarrow> nat \<Rightarrow> double list" where
  "fill_upper a N =
     fold (\<lambda>i a. fold (\<lambda>j a. copy_pair (i * N + j) (j * N + i) a) [i + 1 ..< N] a)
          [0 ..< wrap64 (N + 2 ^ 64 - 1)] a"

subsection \<open>Integer square root\<close>

primrec sqrti_loop :: "nat \<Rightarrow> 32 word \<Rightarrow> 32 word \<Rightarrow> 32 word \<Rightarrow> 32 word" where
  "sqrti_loop 0 a rem' root' = root'"
| "sqrti_loop (Suc i) a rem' root' =
     (let root1 = push_bit 1 root';
          rem1 = push_bit 2 rem' OR drop_bit (32 - 2) a;
          a1 = push_bit 2 a
      in if root1 < rem1 then sqrti_loop i a1 (rem1 - (root1 OR 1)) (root1 + 2)
         else sqrti_loop i a1 rem1 root1)"

definition sqrti :: "32 word \<Rightarrow> 16 word" where
  "sqrti a = ucast (drop_bit 1 (sqrti_loop (32 div 2) a 0 0))"

subsection \<open>Memory, the log and the session\<close>

text \<open>
  \<^verbatim>\<open>g_malloc\<close> for \<open>n\<close> doubles: the byte count is computed in \<^verbatim>\<open>size_t\<close>; a request of
  0 bytes returns \<^verbatim>\<open>NULL\<close>. Memory is unbounded in the model (GLib aborts the program
  when an allocation fails, so a failing allocation never returns).
\<close>

definition g_malloc :: "context_t \<Rightarrow> nat \<Rightarrow> double list option" where
  "g_malloc inc n =
     (let bytes = wrap64 (8 * n)
      in if bytes = 0 then None else Some (map (heap inc) [0 ..< bytes div 8]))"

text \<open>\<^verbatim>\<open>memcpy (dst + off, src, length src)\<close>; the caller checks the bounds.\<close>

definition memcpy :: "double list \<Rightarrow> nat \<Rightarrow> double list \<Rightarrow> double list" where
  "memcpy dst off src = take off dst @ src @ drop (off + length src) dst"

definition sr_warn :: "string \<Rightarrow> context_t \<Rightarrow> context_t" where
  "sr_warn msg inc = inc\<lparr>session := session inc @ [SR_LOG_WARN msg]\<rparr>"

definition sr_err :: "string \<Rightarrow> context_t \<Rightarrow> context_t" where
  "sr_err msg inc = inc\<lparr>session := session inc @ [SR_LOG_ERR msg]\<rparr>"

text \<open>
  Modelled from the spec: \<^verbatim>\<open>sr_session_send\<close> and the \<^verbatim>\<open>std_session_send_df_*\<close>
  helpers (session.c, std.c) are not among the sources. The spec (5, 6) has the consumer
  callback "invoked synchronously" and packets appearing "in calling order": the packet
  is appended to the session trace and the call returns \<^verbatim>\<open>SR_OK\<close>.
\<close>

definition sr_session_send :: "event \<Rightarrow> context_t \<Rightarrow> context_t" where
  "sr_session_send p inc = inc\<lparr>session := session inc @ [p]\<rparr>"

subsection \<open>Emitter\<close>

definition send_reference_information :: "context_t \<Rightarrow> ret \<times> context_t" where
  "send_reference_information inc =
     (let inc1 = (if reference_resistances inc = None
                  then (case g_malloc inc (num_ports inc) of
                          None \<Rightarrow> inc
                        | Some a \<Rightarrow>
                            inc\<lparr>reference_resistances :=
                                  Some (fold (\<lambda>idx a. a[idx := reference_resistance inc])
                                          [0 ..< num_ports inc] a)\<rparr>)
                  else inc)
      in case reference_resistances inc1 of
           None \<Rightarrow> (SR_ERR, inc1)
         | Some a \<Rightarrow>
             (if length a < num_ports inc1 then (UNDEFINED, inc1)
              else (let a1 = (if file_version inc1 > 1 \<and>
                                 parameter_kind inc1 \<noteq> KIND_SCATTERING_PARAMETERS
                              then fold (\<lambda>idx a. a[idx := 1]) [0 ..< num_ports inc1] a
                              else a);
                        inc2 = inc1\<lparr>reference_resistances := Some a1\<rparr>
                    in (SR_OK,
                        sr_session_send
                          (SR_DF_ANALOG SR_MQ_RESISTANCE SR_UNIT_OHM SR_MQFLAG_REFERENCE
                             (take (num_ports inc2) a1)) inc2))))"

text \<open>The constant \<^verbatim>\<open>data_set_entries\<close> of \<^verbatim>\<open>prepare_sweep_mem\<close> and \<^verbatim>\<open>move_data_to_sweep\<close>.\<close>

definition data_set_entries :: "context_t \<Rightarrow> nat" where
  "data_set_entries inc =
     (if state inc = PS_NOISE_DATA then 5 else wrap64 (num_ports inc * num_ports inc * 2))"

definition send_sweep_information :: "context_t \<Rightarrow> ret \<times> context_t" where
  "send_sweep_information inc =
     (if sweep_count inc = 0 then (SR_OK, inc)
      else if length (sweep_freq inc) < sweep_count inc then (UNDEFINED, inc)
      else (let inc1 = sr_session_send
                         (SR_DF_ANALOG SR_MQ_FREQUENCY SR_UNIT_HERTZ SR_MQFLAG_NONE
                            (take (sweep_count inc) (sweep_freq inc))) inc;
                flags = (if state inc1 = PS_NOISE_DATA then SR_MQFLAG_TWO_PORT_NOISE_DATA
                         else SR_MQFLAG_KIND (parameter_kind inc1));
                num_samples = wrap64 (sweep_count inc1 *
                                (if state inc1 = PS_NOISE_DATA then 5
                                 else wrap64 (num_ports inc1 * num_ports inc1 * 2)));
                inc2 = inc1\<lparr>sweep_count := 0\<rparr>
            in if length (sweep_data inc2) < num_samples then (UNDEFINED, inc2)
               else (SR_OK,
                     sr_session_send
                       (SR_DF_ANALOG SR_MQ_N_PORT_PARAMETER SR_UNIT_UNITLESS flags
                          (take num_samples (sweep_data inc2))) inc2)))"

subsection \<open>Sweep accumulator and sweep store\<close>

definition prepare_data_set_memory :: "context_t \<Rightarrow> nat \<Rightarrow> ret \<times> context_t" where
  "prepare_data_set_memory inc min_cap =
     (let inc1 = (if data_set inc = None
                  then inc\<lparr>data_set := g_malloc inc INITIAL_DATA_SET_SIZE,
                           data_set_count := 0,
                           data_set_size := INITIAL_DATA_SET_SIZE\<rparr>
                  else inc)
      in if data_set_count inc1 + min_cap > data_set_size inc1
         then (case (g_malloc inc1 (data_set_size inc1 + INITIAL_DATA_SET_SIZE), data_set inc1) of
                 (Some ptr, Some old) \<Rightarrow>
                   (if data_set_count inc1 \<le> length old \<and> data_set_count inc1 \<le> length ptr
                    then (SR_OK, inc1\<lparr>data_set :=
                                   Some (memcpy ptr 0 (take (data_set_count inc1) old))\<rparr>)
                    else (UNDEFINED, inc1))
               | (None, _) \<Rightarrow> (SR_ERR, sr_err ''failed to alloc memory'' inc1)
               | (_, None) \<Rightarrow> (UNDEFINED, inc1))
         else (SR_OK, inc1))"

definition add_data_to_set :: "context_t \<Rightarrow> double list \<Rightarrow> ret \<times> context_t" where
  "add_data_to_set inc vals =
     (case prepare_data_set_memory inc (length vals) of
        (r, inc1) \<Rightarrow>
          (if r \<noteq> SR_OK then (r, inc1)
           else (case data_set inc1 of
                   None \<Rightarrow> (UNDEFINED, inc1)
                 | Some ds \<Rightarrow>
                     (if data_set_count inc1 + length vals \<le> length ds
                      then (SR_OK, inc1\<lparr>data_set := Some (memcpy ds (data_set_count inc1) vals),
                                     data_set_count := data_set_count inc1 + length vals\<rparr>)
                      else (UNDEFINED, inc1)))))"

definition prepare_sweep_mem :: "context_t \<Rightarrow> ret \<times> context_t" where
  "prepare_sweep_mem inc =
     (let entries = data_set_entries inc
      in if sweep_size inc = 0
         then (let sweep_pts = (if file_version inc > 1 \<and> sweep_points inc > 0
                                then sweep_points inc else INITIAL_DATA_SET_SIZE)
               in case (g_malloc inc sweep_pts, g_malloc inc (sweep_pts * entries)) of
                    (Some f, Some d) \<Rightarrow>
                      (SR_OK, inc\<lparr>sweep_freq := f, sweep_data := d, sweep_size := sweep_pts\<rparr>)
                  | (f, d) \<Rightarrow>
                      (SR_ERR, sr_err ''failed to alloc memory''
                                 (inc\<lparr>sweep_freq := (case f of None \<Rightarrow> [] | Some x \<Rightarrow> x),
                                      sweep_data := (case d of None \<Rightarrow> [] | Some x \<Rightarrow> x)\<rparr>)))
         else if sweep_count inc = sweep_size inc
         then (case (g_malloc inc (sweep_size inc + INITIAL_DATA_SET_SIZE),
                     g_malloc inc ((sweep_size inc + INITIAL_DATA_SET_SIZE) * entries)) of
                 (Some ptr_f, Some ptr_d) \<Rightarrow>
                   (let nf = sweep_count inc; nd = wrap64 (sweep_count inc * entries)
                    in if nf \<le> length (sweep_freq inc) \<and> nf \<le> length ptr_f \<and>
                          nd \<le> length (sweep_data inc) \<and> nd \<le> length ptr_d
                       then (SR_OK,
                             inc\<lparr>sweep_freq := memcpy ptr_f 0 (take nf (sweep_freq inc)),
                                 sweep_data := memcpy ptr_d 0 (take nd (sweep_data inc)),
                                 sweep_size := sweep_size inc + INITIAL_DATA_SET_SIZE\<rparr>)
                       else (UNDEFINED, inc))
               | _ \<Rightarrow> (SR_ERR, sr_err ''failed to alloc memory'' inc))
         else (SR_OK, inc))"

text \<open>
  The three layouts of \<^verbatim>\<open>move_data_to_sweep\<close> (lines 602-629). \<open>ptr\<close> is the memory of
  \<^verbatim>\<open>sweep_data\<close> from the block of the new sweep point on, \<open>ds\<close> is \<^verbatim>\<open>data_set\<close>. \<open>None\<close>
  is an access outside either buffer.
\<close>

definition copy_row :: "double list \<Rightarrow> nat \<Rightarrow> nat \<Rightarrow> nat \<Rightarrow> double list \<Rightarrow> double list option" where
  "copy_row ds idx offs row_len ptr =
     (if idx + row_len \<le> length ds \<and> offs + row_len \<le> length ptr
      then Some (memcpy ptr offs (take row_len (drop idx ds)))
      else None)"

definition move_rows :: "double list \<Rightarrow> nat \<Rightarrow> (nat \<Rightarrow> nat) \<Rightarrow> (nat \<Rightarrow> nat) \<Rightarrow> double list \<Rightarrow> double list option" where
  "move_rows ds N row_len offs ptr =
     fst (fold (\<lambda>i (p, idx). (Option.bind p (copy_row ds idx (offs i) (row_len i)), idx + row_len i))
            [0 ..< N] (Some ptr, 1))"

definition move_matrix :: "context_t \<Rightarrow> double list \<Rightarrow> double list \<Rightarrow> double list option" where
  "move_matrix inc ds ptr =
     (if matrix_format inc = MF_FULL
      then copy_row ds 1 0 (wrap64 (num_vals_per_set inc + 2 ^ 64 - 1)) ptr
      else if matrix_format inc = MF_UPPER
      then move_rows ds (num_ports inc) (\<lambda>i. 2 * (num_ports inc - i))
             (\<lambda>i. i * (num_ports inc + 1) * 2) ptr
      else move_rows ds (num_ports inc) (\<lambda>i. 2 * (i + 1))
             (\<lambda>i. i * num_ports inc * 2) ptr)"

text \<open>
  Lines 631-644: the conversion of \<^verbatim>\<open>num_vals_per_set/2\<close> pairs from the start of the
  block, the mirroring and the exchange of the two-port order.
\<close>

definition number_conv :: "number_formats \<Rightarrow> double \<times> double \<Rightarrow> double \<times> double" where
  "number_conv f =
     (if f = FORMAT_DB_ANGLE then convdba
      else if f = FORMAT_MAGNITUDE_ANGLE then convma
      else convri)"

definition convert_matrix :: "context_t \<Rightarrow> double list \<Rightarrow> double list option" where
  "convert_matrix inc ptr =
     (if length ptr < 2 * (num_vals_per_set inc div 2) then None
      else (let p1 = conv_len ptr (number_conv (number_format inc)) (num_vals_per_set inc div 2)
            in if matrix_format inc \<noteq> MF_FULL \<and> length p1 < 2 * num_ports inc * num_ports inc
               then None
               else (let p2 = (if matrix_format inc = MF_UPPER then fill_lower p1 (num_ports inc)
                               else if matrix_format inc = MF_LOWER then fill_upper p1 (num_ports inc)
                               else p1)
                     in if num_ports inc = 2 \<and> two_port_data_order inc = TP_ORDER_21_12
                        then (if length p2 < 6 then None else Some (swap21_12 p2))
                        else Some p2)))"

definition move_data_to_sweep :: "context_t \<Rightarrow> ret \<times> context_t" where
  "move_data_to_sweep inc =
     (case data_set inc of
        None \<Rightarrow> (UNDEFINED, inc)
      | Some ds \<Rightarrow>
          (if ds = [] then (UNDEFINED, inc)
           else if num_ports inc = 0 then (SR_ERR, inc)
           else (case prepare_sweep_mem inc of
                   (r, inc1) \<Rightarrow>
                     (if r \<noteq> SR_OK then (r, inc1)
                      else if length (sweep_freq inc1) \<le> sweep_count inc1 then (UNDEFINED, inc1)
                      else (let new_freq = ds ! 0;
                                inc2 = inc1\<lparr>sweep_freq := (sweep_freq inc1)
                                               [sweep_count inc1 := new_freq * frequency_unit inc1],
                                            last_freq := new_freq\<rparr>;
                                off = wrap64 (sweep_count inc2 * data_set_entries inc);
                                ptr = drop off (sweep_data inc2)
                            in if length (sweep_data inc2) < off then (UNDEFINED, inc2)
                               else if state inc2 = PS_DATA_LINES
                               then (case Option.bind (move_matrix inc2 ds ptr) (convert_matrix inc2) of
                                       None \<Rightarrow> (UNDEFINED, inc2)
                                     | Some p \<Rightarrow>
                                         (SR_OK, inc2\<lparr>sweep_data := take off (sweep_data inc2) @ p,
                                                     sweep_count := sweep_count inc2 + 1,
                                                     data_set_count := 0\<rparr>))
                               else (if length ds < 4 then (UNDEFINED, inc2)
                                     else (let ds1 = ds[1 := confNF2F (ds ! 1)];
                                               ds2 = ds1[2 := fst (convma (ds1 ! 2, ds1 ! 3)),
                                                         3 := snd (convma (ds1 ! 2, ds1 ! 3))];
                                               inc3 = inc2\<lparr>data_set := Some ds2\<rparr>
                                           in case copy_row ds2 1 0
                                                     (wrap64 (num_vals_per_set inc3 + 2 ^ 64 - 1)) ptr of
                                                None \<Rightarrow> (UNDEFINED, inc3)
                                              | Some p \<Rightarrow>
                                                  (SR_OK,
                                                   inc3\<lparr>sweep_data := take off (sweep_data inc3) @ p,
                                                        sweep_count := sweep_count inc3 + 1,
                                                        data_set_count := 0\<rparr>))))))))"

subsection \<open>Option line and keyword lines\<close>

definition strip_comment :: "string \<Rightarrow> string" where
  "strip_comment line =
     g_strstrip (case strstr line ''!'' of Some p \<Rightarrow> take p line | None \<Rightarrow> line)"

definition parse_option_line :: "context_t \<Rightarrow> string \<Rightarrow> ret \<times> context_t" where
  "parse_option_line inc option_line =
     (let line = option_line[0 := CHR '' ''] @ '' '';
          unit_res = (case strstr line ''HZ '' of
                        Some p \<Rightarrow>
                          (if p = 0 then Inl UNDEFINED
                           else if line ! (p - 1) = CHR ''K'' then Inr 1000
                           else if line ! (p - 1) = CHR ''M'' then Inr 1000000
                           else if line ! (p - 1) = CHR ''G'' then Inr 1000000000
                           else if line ! (p - 1) = CHR '' '' then Inr 1
                           else Inl SR_ERR)
                      | None \<Rightarrow> Inr 1000000000)
      in case unit_res of
           Inl SR_ERR \<Rightarrow> (SR_ERR, sr_err ''option line no known unit prefix found'' inc)
         | Inl r \<Rightarrow> (r, inc)
         | Inr u \<Rightarrow>
             (let inc1 = inc\<lparr>frequency_unit := u\<rparr>;
                  inc2 = inc1\<lparr>number_format :=
                           (if strstr line '' DB '' \<noteq> None then FORMAT_DB_ANGLE
                            else if strstr line '' MA '' \<noteq> None then FORMAT_MAGNITUDE_ANGLE
                            else if strstr line '' RI '' \<noteq> None then FORMAT_REAL_IMAGINARY
                            else FORMAT_MAGNITUDE_ANGLE)\<rparr>;
                  inc3 = inc2\<lparr>parameter_kind :=
                           (if strstr line '' S '' \<noteq> None then KIND_SCATTERING_PARAMETERS
                            else if strstr line '' Y '' \<noteq> None then KIND_ADMITTANCE_PARAMETERS
                            else if strstr line '' Z '' \<noteq> None then KIND_IMPEDANCE_PARAMETERS
                            else if strstr line '' G '' \<noteq> None then KIND_HYBRID_G_PARAMETERS
                            else if strstr line '' H '' \<noteq> None then KIND_HYBRID_H_PARAMETERS
                            else KIND_SCATTERING_PARAMETERS)\<rparr>
              in case strstr line '' R '' of
                   Some p \<Rightarrow>
                     (case sr_atod (g_strchug (drop (p + 3) line)) of
                        Some v \<Rightarrow> (SR_OK, inc3\<lparr>reference_resistance := v\<rparr>)
                      | None \<Rightarrow> (SR_ERR, inc3))
                 | None \<Rightarrow> (SR_OK, inc3\<lparr>reference_resistance := 50\<rparr>)))"

definition parse_version_line :: "context_t \<Rightarrow> string \<Rightarrow> ret \<times> context_t" where
  "parse_version_line inc version_line =
     (let version_keyword = ''[VERSION]''
      in if \<not> g_str_has_prefix version_line version_keyword then (SR_ERR, inc)
         else (let ptr = g_strchug (drop (length version_keyword) version_line)
               in if g_str_has_prefix ptr ''2.0'' then (SR_OK, inc\<lparr>file_version := 2\<rparr>)
                  else (SR_ERR, inc)))"

definition fwd_to :: "string \<Rightarrow> string \<Rightarrow> string option" where
  "fwd_to line word =
     (if g_str_has_prefix line word then Some (g_strchug (drop (length word) line)) else None)"

text \<open>The loop of \<^verbatim>\<open>parse_references\<close>: the pieces still to read, the array, \<^verbatim>\<open>*num_refs\<close>.\<close>

fun parse_references_loop :: "nat \<Rightarrow> string list \<Rightarrow> double list \<Rightarrow> nat \<Rightarrow> ret \<times> double list \<times> nat" where
  "parse_references_loop N [] refs num_refs = (SR_OK, refs, num_refs)"
| "parse_references_loop N (val_str # rest) refs num_refs =
     (if \<not> num_refs < N then (SR_OK, refs, num_refs)
      else if val_str = [] then parse_references_loop N rest refs num_refs
      else (case sr_atod val_str of
              None \<Rightarrow> (SR_ERR, refs, num_refs)
            | Some v \<Rightarrow>
                (if length refs \<le> num_refs then (UNDEFINED, refs, num_refs)
                 else parse_references_loop N rest (refs[num_refs := v]) (num_refs + 1))))"

definition parse_references :: "context_t \<Rightarrow> string \<Rightarrow> ret \<times> context_t" where
  "parse_references inc line =
     (case reference_resistances inc of
        None \<Rightarrow> (UNDEFINED, inc)
      | Some refs \<Rightarrow>
          (case parse_references_loop (num_ports inc) (g_strsplit line (CHR '' '')) refs
                  (num_references_found inc) of
             (r, refs1, n1) \<Rightarrow>
               (let inc1 = inc\<lparr>reference_resistances := Some refs1, num_references_found := n1\<rparr>
                in if r \<noteq> SR_OK then (r, inc1)
                   else if n1 = num_ports inc1
                   then send_reference_information (inc1\<lparr>state := PS_KEYWORDS\<rparr>)
                   else (SR_OK, inc1))))"

text \<open>
  The conversion of an \<^verbatim>\<open>int\<close> to \<^verbatim>\<open>size_t\<close>, and the \<^verbatim>\<open>int\<close> expression
  \<^verbatim>\<open>ival * ival * 2 + 1\<close>, whose overflow is undefined.
\<close>

definition size_t_of_int :: "int \<Rightarrow> nat" where
  "size_t_of_int i = nat (i mod 2 ^ 64)"

definition parse_key_line :: "context_t \<Rightarrow> string \<Rightarrow> ret \<times> context_t" where
  "parse_key_line inc line =
     (case fwd_to line ''[NUMBER OF PORTS]'' of
        Some ptr \<Rightarrow>
          (case sr_atoi ptr of
             None \<Rightarrow> (SR_ERR, inc)
           | Some ival \<Rightarrow>
               (if ival * ival * 2 + 1 < 2 ^ 31
                then (SR_OK, inc\<lparr>num_ports := size_t_of_int ival,
                                 num_vals_per_set := size_t_of_int (ival * ival * 2 + 1)\<rparr>)
                else (UNDEFINED, inc\<lparr>num_ports := size_t_of_int ival\<rparr>)))
      | None \<Rightarrow>
     (case fwd_to line ''[TWO-PORT ORDER]'' of
        Some ptr \<Rightarrow>
          (if strstr ptr ''12_21'' \<noteq> None then (SR_OK, inc\<lparr>two_port_data_order := TP_ORDER_12_21\<rparr>)
           else if strstr ptr ''21_12'' \<noteq> None then (SR_OK, inc\<lparr>two_port_data_order := TP_ORDER_21_12\<rparr>)
           else (SR_ERR, inc))
      | None \<Rightarrow>
     (case fwd_to line ''[NUMBER OF FREQUENCIES]'' of
        Some ptr \<Rightarrow>
          (case sr_atoi ptr of
             None \<Rightarrow> (SR_ERR, inc)
           | Some ival \<Rightarrow> (SR_OK, inc\<lparr>sweep_points := size_t_of_int ival\<rparr>))
      | None \<Rightarrow>
     (case fwd_to line ''[NUMBER OF NOISE FREQUENCIES]'' of
        Some ptr \<Rightarrow>
          (case sr_atoi ptr of
             None \<Rightarrow> (SR_ERR, inc)
           | Some ival \<Rightarrow> (SR_OK, inc\<lparr>sweep_points_noise := size_t_of_int ival\<rparr>))
      | None \<Rightarrow>
     (case fwd_to line ''[REFERENCE]'' of
        Some ptr \<Rightarrow>
          (if num_ports inc = 0 then (SR_ERR, inc)
           else (let inc1 = inc\<lparr>reference_resistances := g_malloc inc (num_ports inc)\<rparr>
                 in if reference_resistances inc1 = None then (SR_ERR, inc1)
                    else parse_references
                           (inc1\<lparr>num_references_found := 0, state := PS_REFERENCES\<rparr>) ptr))
      | None \<Rightarrow>
     (case fwd_to line ''[MATRIX FORMAT]'' of
        Some ptr \<Rightarrow>
          (if num_ports inc = 0 then (SR_ERR, inc)
           else (let fmt = (if strstr ptr ''FULL'' \<noteq> None then Some MF_FULL
                            else if strstr ptr ''LOWER'' \<noteq> None then Some MF_LOWER
                            else if strstr ptr ''UPPER'' \<noteq> None then Some MF_UPPER
                            else None)
                 in case fmt of
                      None \<Rightarrow> (SR_ERR, inc)
                    | Some f \<Rightarrow>
                        (SR_OK,
                         inc\<lparr>matrix_format := f,
                             num_vals_per_set :=
                               (if f = MF_FULL
                                then wrap64 (2 * num_ports inc * num_ports inc + 1)
                                else wrap64 (num_ports inc * num_ports inc + num_ports inc + 1))\<rparr>)))
      | None \<Rightarrow>
     (case fwd_to line ''[MIXED-MODE ORDER]'' of
        Some ptr \<Rightarrow> (SR_ERR, sr_err ''Mixed mode parameters are not supported'' inc)
      | None \<Rightarrow>
     (case fwd_to line ''[BEGIN INFORMATION]'' of
        Some ptr \<Rightarrow> (SR_OK, inc\<lparr>state := PS_SKIP_INFO\<rparr>)
      | None \<Rightarrow>
     (case fwd_to line ''[NETWORK DATA]'' of
        Some ptr \<Rightarrow>
          (if num_ports inc = 0 then (SR_ERR, inc) else (SR_OK, inc\<lparr>state := PS_DATA_LINES\<rparr>))
      | None \<Rightarrow> (SR_OK, inc))))))))))"

subsection \<open>Data lines\<close>

fun parse_data_line_numbers_loop :: "string list \<Rightarrow> double list \<Rightarrow> ret \<times> double list" where
  "parse_data_line_numbers_loop [] vals = (SR_OK, vals)"
| "parse_data_line_numbers_loop (val_str # rest) vals =
     (if val_str = [] then parse_data_line_numbers_loop rest vals
      else (case sr_atod (g_strchug val_str) of
              None \<Rightarrow> (SR_ERR, vals)
            | Some v \<Rightarrow> parse_data_line_numbers_loop rest (vals @ [v])))"

definition parse_data_line_numbers :: "string \<Rightarrow> ret \<times> double list" where
  "parse_data_line_numbers line =
     (let val_strings = g_strsplit line (CHR '' '')
      in if length val_strings = 0 then (SR_OK, [])
         else parse_data_line_numbers_loop val_strings [])"

definition calc_num_ports :: "context_t \<Rightarrow> ret \<times> context_t" where
  "calc_num_ports inc =
     (let inc1 = inc\<lparr>num_vals_per_set := data_set_count inc\<rparr>;
          inc2 = inc1\<lparr>num_ports := unat (sqrti (of_nat (num_vals_per_set inc1 div 2)))\<rparr>
      in if wrap64 (num_ports inc2 * num_ports inc2 * 2 + 1) \<noteq> num_vals_per_set inc2
         then (SR_ERR, sr_err ''num_port = %zu num_vals_per_set = %zu'' inc2)
         else (SR_OK, inc2))"

text \<open>
  The start of noise data: the four statements that stand both in \<^verbatim>\<open>parse_data_line\<close>
  (lines 753-756, a version 1 file) and in \<^verbatim>\<open>process_line\<close> (lines 954-957, the
  \<^verbatim>\<open>[NOISE DATA]\<close> keyword). The return value of \<^verbatim>\<open>send_sweep_information\<close> is not
  looked at.
\<close>

definition start_noise_data :: "context_t \<Rightarrow> ret \<times> context_t" where
  "start_noise_data inc =
     (case send_sweep_information inc of
        (r, inc1) \<Rightarrow>
          ((if r = UNDEFINED then UNDEFINED else SR_OK),
           inc1\<lparr>sweep_size := wrap64 (sweep_size inc1 * num_ports inc1 * num_ports inc1 * 2) div 5,
                state := PS_NOISE_DATA,
                num_vals_per_set := 5\<rparr>))"

definition parse_data_line :: "context_t \<Rightarrow> string \<Rightarrow> ret \<times> context_t" where
  "parse_data_line inc line =
     (case parse_data_line_numbers line of
        (r0, vals) \<Rightarrow>
          (if r0 \<noteq> SR_OK then (r0, sr_err ''failed parsing as number'' inc)
           else if length vals = 0 then (SR_OK, inc)
           else
             (case (if num_ports inc = 0 \<and> file_version inc = 1 \<and>
                       data_set_count inc \<noteq> 0 \<and> length vals mod 2 \<noteq> 0
                    then (case calc_num_ports inc of
                            (ra, ia) \<Rightarrow>
                              (if ra \<noteq> SR_OK then (ra, ia)
                               else (case send_reference_information ia of
                                       (rb, ib) \<Rightarrow>
                                         (if rb \<noteq> SR_OK then (rb, ib)
                                          else move_data_to_sweep ib))))
                    else (SR_OK, inc)) of
                (r1, inc1) \<Rightarrow>
                  (case (if r1 = SR_OK then add_data_to_set inc1 vals else (r1, inc1)) of
                     (r2, inc2) \<Rightarrow>
                       (case (if file_version inc2 = 1 \<and> state inc2 = PS_DATA_LINES \<and> r2 = SR_OK \<and>
                                 sweep_count inc2 \<noteq> 0 \<and> data_set_count inc2 \<noteq> 0 \<and>
                                 (case data_set inc2 of
                                    Some (f # fs) \<Rightarrow> last_freq inc2 \<ge> f
                                  | _ \<Rightarrow> False)
                              then start_noise_data inc2
                              else (r2, inc2)) of
                          (r3, inc3) \<Rightarrow>
                            (if r3 = SR_OK \<and> num_vals_per_set inc3 \<noteq> 0
                             then (let inc4 = (if data_set_count inc3 > num_vals_per_set inc3
                                               then sr_warn ''more data than expected in the last data-set'' inc3
                                               else inc3)
                                   in if data_set_count inc4 \<ge> num_vals_per_set inc4
                                      then move_data_to_sweep inc4
                                      else (r3, inc4))
                             else (r3, inc3)))))))"

subsection \<open>State machine\<close>

text \<open>
  \<^verbatim>\<open>process_line\<close>. The \<^verbatim>\<open>[NOISE DATA]\<close> and \<^verbatim>\<open>[END]\<close> branches do not look at the
  return value of \<^verbatim>\<open>send_sweep_information\<close>.
\<close>

definition process_line :: "context_t \<Rightarrow> string \<Rightarrow> ret \<times> context_t" where
  "process_line inc line =
     (if state inc \<noteq> PS_START_FILE \<and> state inc \<noteq> PS_OPTION_LINE \<and> char0 line = CHR ''#''
      then (SR_OK, inc)
      else (case state inc of
              PS_START_FILE \<Rightarrow>
                (if char0 line = CHR ''#''
                 then parse_option_line (inc\<lparr>file_version := 1, state := PS_DATA_LINES\<rparr>) line
                 else if char0 line = CHR ''[''
                 then parse_version_line (inc\<lparr>state := PS_OPTION_LINE\<rparr>) line
                 else (SR_ERR, inc))
            | PS_OPTION_LINE \<Rightarrow>
                (if char0 line \<noteq> CHR ''#'' then (SR_ERR, inc)
                 else parse_option_line (inc\<lparr>state := PS_NUM_PORTS\<rparr>) line)
            | PS_NUM_PORTS \<Rightarrow>
                (if char0 line \<noteq> CHR ''['' then (SR_ERR, inc)
                 else parse_key_line (inc\<lparr>state := PS_KEYWORDS\<rparr>) line)
            | PS_KEYWORDS \<Rightarrow>
                (if char0 line = CHR ''['' then parse_key_line inc line
                 else parse_data_line (inc\<lparr>state := PS_DATA_LINES\<rparr>) line)
            | PS_REFERENCES \<Rightarrow> parse_references inc line
            | PS_SKIP_INFO \<Rightarrow>
                (if fwd_to line ''[END INFORMATION]'' \<noteq> None
                 then (SR_OK, inc\<lparr>state := PS_KEYWORDS\<rparr>)
                 else (SR_OK, inc))
            | PS_DATA_LINES \<Rightarrow>
                (if char0 line = CHR ''['' \<and> fwd_to line ''[NOISE DATA]'' \<noteq> None
                 then (if num_ports inc \<noteq> 2
                       then (SR_ERR, sr_err ''Noise data only allowed for two port networks'' inc)
                       else start_noise_data inc)
                 else if char0 line = CHR ''['' \<and> fwd_to line ''[END]'' \<noteq> None
                 then (case send_sweep_information inc of
                         (r, inc1) \<Rightarrow> ((if r = UNDEFINED then UNDEFINED else SR_OK), inc1))
                 else parse_data_line inc line)
            | PS_NOISE_DATA \<Rightarrow>
                (if char0 line = CHR ''['' \<and> fwd_to line ''[END]'' \<noteq> None
                 then (case send_sweep_information inc of
                         (r, inc1) \<Rightarrow> ((if r = UNDEFINED then UNDEFINED else SR_OK), inc1))
                 else parse_data_line inc line)))"

subsection \<open>Lexical chunker and the module interface\<close>

text \<open>
  \<^verbatim>\<open>struct sr_input\<close>: the members the module uses. The functions that deliver lines take
  the line handler as a parameter \<open>h\<close>; the module's own functions are the instances at
  \<open>process_line\<close>.
\<close>

record sr_input =
  buf :: string
  sdi_ready :: bool
  priv :: context_t

definition init :: "(nat \<Rightarrow> double) \<Rightarrow> context_t" where
  "init h =
     \<lparr>frequency_unit = 0, last_freq = 0, reference_resistance = 0,
      reference_resistances = None, parameter_kind = KIND_ZERO,
      number_format = FORMAT_DB_ANGLE, two_port_data_order = TP_ORDER_21_12,
      matrix_format = MF_FULL, sweep_points = 0, sweep_points_noise = 0,
      state = PS_START_FILE, num_ports = 0, num_references_found = 0,
      num_vals_per_set = 0, file_version = 0, started = False,
      data_set = None, data_set_size = 0, data_set_count = 0,
      sweep_freq = [], sweep_data = [], sweep_count = 0, sweep_size = 0,
      session = [], heap = h\<rparr>"

definition begin_session :: "context_t \<Rightarrow> context_t" where
  "begin_session inc =
     (if \<not> started inc
      then sr_session_send SR_DF_FRAME_BEGIN ((sr_session_send SR_DF_HEADER inc)\<lparr>started := True\<rparr>)
      else inc)"

text \<open>\<^verbatim>\<open>while ((ptr = strstr(str, a))) *ptr = b;\<close> on the C string that starts the buffer.\<close>

definition replace_char :: "char \<Rightarrow> char \<Rightarrow> string \<Rightarrow> string" where
  "replace_char a b s =
     map (\<lambda>c. if c = a then b else c) (c_str s) @ drop (length (c_str s)) s"

fun process_lines_with :: "(context_t \<Rightarrow> string \<Rightarrow> ret \<times> context_t) \<Rightarrow> context_t \<Rightarrow> string list \<Rightarrow> ret \<times> context_t" where
  "process_lines_with h inc [] = (SR_OK, inc)"
| "process_lines_with h inc (l # rest) =
     (let line = strip_comment l
      in if char0 line = NUL then process_lines_with h inc rest
         else (case h inc line of
                 (r, inc1) \<Rightarrow> (if r \<noteq> SR_OK then (r, inc1) else process_lines_with h inc1 rest)))"

definition process_buffer_with :: "(context_t \<Rightarrow> string \<Rightarrow> ret \<times> context_t) \<Rightarrow> sr_input \<Rightarrow> bool \<Rightarrow> ret \<times> sr_input" where
  "process_buffer_with h inp is_eof =
     (let inp1 = inp\<lparr>priv := begin_session (priv inp)\<rparr>
      in if length (buf inp1) = 0 then (SR_OK, inp1)
         else (let b = replace_char (CHR 0x0D) (CHR 0x0A)
                         (replace_char (CHR 0x09) (CHR '' '') (map g_ascii_toupper (buf inp1)))
               in case (if is_eof then Some (length b, b)
                        else (case g_strrstr_len b (length b) (CHR 0x0A) of
                                None \<Rightarrow> None
                              | Some p \<Rightarrow> Some (p + 1, b[p := NUL]))) of
                    None \<Rightarrow> (SR_OK, inp1\<lparr>buf := b\<rparr>)
                  | Some (process_up_to, b1) \<Rightarrow>
                      (case process_lines_with h (priv inp1) (g_strsplit (c_str b1) (CHR 0x0A)) of
                         (r, inc1) \<Rightarrow> (r, inp1\<lparr>buf := drop process_up_to b1, priv := inc1\<rparr>))))"

definition receive_with :: "(context_t \<Rightarrow> string \<Rightarrow> ret \<times> context_t) \<Rightarrow> sr_input \<Rightarrow> string \<Rightarrow> ret \<times> sr_input" where
  "receive_with h inp chunk =
     (let inp1 = inp\<lparr>buf := buf inp @ chunk\<rparr>
      in if \<not> sdi_ready inp1 then (SR_OK, inp1\<lparr>sdi_ready := True\<rparr>)
         else process_buffer_with h inp1 False)"

definition end_with :: "(context_t \<Rightarrow> string \<Rightarrow> ret \<times> context_t) \<Rightarrow> sr_input \<Rightarrow> ret \<times> sr_input" where
  "end_with h inp =
     (case (if sdi_ready inp then process_buffer_with h inp True else (SR_OK, inp)) of
        (r, inp1) \<Rightarrow>
          (if r = UNDEFINED then (r, inp1)
           else (case (if file_version (priv inp1) = 1 \<and> num_ports (priv inp1) = 0 \<and>
                          data_set_count (priv inp1) \<noteq> 0
                       then (case calc_num_ports (priv inp1) of
                               (ra, ia) \<Rightarrow>
                                 (if ra \<noteq> SR_OK then (ra, ia)
                                  else (case send_reference_information ia of
                                          (rb, ib) \<Rightarrow>
                                            (if rb \<noteq> SR_OK then (rb, ib)
                                             else move_data_to_sweep ib))))
                       else (r, priv inp1)) of
                   (r1, inc1) \<Rightarrow>
                     (case (if r1 = SR_OK then send_sweep_information inc1 else (r1, inc1)) of
                        (r2, inc2) \<Rightarrow>
                          (let inc3 = sr_session_send SR_DF_FRAME_END inc2;
                               inc4 = (if started inc3 then sr_session_send SR_DF_END inc3 else inc3)
                           in (r2, inp1\<lparr>priv := inc4\<rparr>))))))"

definition process_buffer :: "sr_input \<Rightarrow> bool \<Rightarrow> ret \<times> sr_input" where
  "process_buffer = process_buffer_with process_line"

definition receive :: "sr_input \<Rightarrow> string \<Rightarrow> ret \<times> sr_input" where
  "receive = receive_with process_line"

definition end_input :: "sr_input \<Rightarrow> ret \<times> sr_input" where
  "end_input = end_with process_line"

text \<open>Feeding a sequence of chunks: the caller stops at the first call that fails.\<close>

fun receive_all_with :: "(context_t \<Rightarrow> string \<Rightarrow> ret \<times> context_t) \<Rightarrow> sr_input \<Rightarrow> string list \<Rightarrow> ret \<times> sr_input" where
  "receive_all_with h inp [] = (SR_OK, inp)"
| "receive_all_with h inp (chunk # chunks) =
     (case receive_with h inp chunk of
        (r, inp1) \<Rightarrow> (if r \<noteq> SR_OK then (r, inp1) else receive_all_with h inp1 chunks))"

definition receive_all :: "sr_input \<Rightarrow> string list \<Rightarrow> ret \<times> sr_input" where
  "receive_all = receive_all_with process_line"

text \<open>A whole input: the chunks, then \<^verbatim>\<open>end()\<close> when no \<^verbatim>\<open>receive()\<close> has failed.\<close>

definition run :: "(nat \<Rightarrow> double) \<Rightarrow> string list \<Rightarrow> ret \<times> sr_input" where
  "run h chunks =
     (case receive_all \<lparr>buf = [], sdi_ready = False, priv = init h\<rparr> chunks of
        (r, inp) \<Rightarrow> (if r \<noteq> SR_OK then (r, inp) else end_input inp))"

section \<open>Notions used in the statements\<close>

text \<open>
  The complex pair in row \<open>i\<close>, column \<open>j\<close> of a row-major \<open>N \<times> N\<close> block of doubles.
\<close>

definition cell :: "double list \<Rightarrow> nat \<Rightarrow> nat \<Rightarrow> nat \<Rightarrow> double \<times> double" where
  "cell M N i j = (M ! (2 * (i * N + j)), M ! (2 * (i * N + j) + 1))"

text \<open>
  The two loops of \<^verbatim>\<open>fill_lower\<close> and \<^verbatim>\<open>fill_upper\<close> for a numbering \<open>g\<close> of the cells:
  row \<open>i\<close> up to column \<open>m\<close>, and the rows below \<open>n\<close>.
\<close>

definition mirror_row :: "(nat \<Rightarrow> nat \<Rightarrow> nat) \<Rightarrow> nat \<Rightarrow> nat \<Rightarrow> double list \<Rightarrow> double list" where
  "mirror_row g i m a = fold (\<lambda>j a. copy_pair (g j i) (g i j) a) [i + 1 ..< m] a"

definition mirror_rows :: "(nat \<Rightarrow> nat \<Rightarrow> nat) \<Rightarrow> nat \<Rightarrow> nat \<Rightarrow> double list \<Rightarrow> double list" where
  "mirror_rows g N n a = fold (\<lambda>i a. mirror_row g i N a) [0 ..< n] a"

definition cells_ok :: "(nat \<Rightarrow> nat \<Rightarrow> nat) \<Rightarrow> nat \<Rightarrow> nat \<Rightarrow> bool" where
  "cells_ok g N len =
     (\<forall>r<N. \<forall>c<N. 2 * g r c + 1 < len \<and> (\<forall>r'<N. \<forall>c'<N. g r c = g r' c' \<longrightarrow> r = r' \<and> c = c'))"

text \<open>A fresh input whose uninitialised memory reads as zero, for the worked examples.\<close>

definition new_input :: sr_input where
  "new_input = \<lparr>buf = [], sdi_ready = False, priv = init (\<lambda>n. 0)\<rparr>"

text \<open>
  The header of a version 2 file for a two-port with one frequency, the header of the same
  file with the upper triangle stored, and the header of a three-port.
\<close>

definition two_port_header :: string where
  "two_port_header =
     ''[Version] 2.0\<newline># hz S MA R 50\<newline>[Number of Ports] 2\<newline>[Number of Frequencies] 1\<newline>[Network Data]\<newline>''"

definition two_port_upper_header :: string where
  "two_port_upper_header =
     ''[Version] 2.0\<newline># hz S MA R 50\<newline>[Number of Ports] 2\<newline>[Number of Frequencies] 1\<newline>[Matrix Format] Upper\<newline>[Network Data]\<newline>''"

definition three_port_header :: string where
  "three_port_header =
     ''[Version] 2.0\<newline># hz S MA R 50\<newline>[Number of Ports] 3\<newline>[Network Data]\<newline>''"

text \<open>The contexts these headers lead to (see the lemmas \<open>reach_*\<close>).\<close>

definition after_header :: "nat \<Rightarrow> nat \<Rightarrow> nat \<Rightarrow> matrix_formats \<Rightarrow> context_t" where
  "after_header N vals points fmt =
     \<lparr>frequency_unit = 1, last_freq = 0, reference_resistance = 50,
      reference_resistances = None, parameter_kind = KIND_SCATTERING_PARAMETERS,
      number_format = FORMAT_MAGNITUDE_ANGLE, two_port_data_order = TP_ORDER_21_12,
      matrix_format = fmt, sweep_points = points, sweep_points_noise = 0,
      state = PS_DATA_LINES, num_ports = N, num_references_found = 0,
      num_vals_per_set = vals, file_version = 2, started = True,
      data_set = None, data_set_size = 0, data_set_count = 0,
      sweep_freq = [], sweep_data = [], sweep_count = 0, sweep_size = 0,
      session = [SR_DF_HEADER, SR_DF_FRAME_BEGIN], heap = (\<lambda>n. 0)\<rparr>"

text \<open>A two-port context that holds one sweep point, after the data row \<^verbatim>\<open>1 1 0 1 0 1 0 1 0\<close>.\<close>

definition two_port_one_point :: context_t where
  "two_port_one_point =
     (after_header 2 9 1 MF_FULL)
       \<lparr>last_freq := 1,
        data_set := Some ([1, 1, 0, 1, 0, 1, 0, 1, 0] @ replicate 503 0),
        data_set_size := 512,
        sweep_freq := [1], sweep_data := [1, 0, 1, 0, 1, 0, 1, 0],
        sweep_count := 1, sweep_size := 1\<rparr>"

text \<open>The two-port context with the upper triangle stored, once a data row is in \<^verbatim>\<open>data_set\<close>.\<close>

definition upper_row_loaded :: context_t where
  "upper_row_loaded =
     (after_header 2 7 1 MF_UPPER)
       \<lparr>data_set := Some ([1, 1, 180, 2, 180, 3, 180] @ replicate 505 0),
        data_set_size := 512, data_set_count := 7\<rparr>"

text \<open>
  The integer square root, and the \<open>2 * i\<close> leading bits of a 32-bit word: the part of the
  argument that \<^verbatim>\<open>sqrti\<close> has consumed after \<open>i\<close> rounds.
\<close>

definition top_bits :: "nat \<Rightarrow> 32 word \<Rightarrow> nat" where
  "top_bits i a = unat a div 2 ^ (32 - 2 * i)"


definition isqrt :: "nat \<Rightarrow> nat" where
  "isqrt n = nat \<lfloor>sqrt (real n)\<rfloor>"


text \<open>
  The two packets \<^verbatim>\<open>send_sweep_information\<close> sends for a store that holds \<open>sweep_count\<close>
  points, and the two closing blocks of \<^verbatim>\<open>parse_data_line\<close>, named so that theorems can
  speak of them: the detection of the noise section (lines 748 to 759) and the completion of
  a data set (lines 761 to 771). \<open>parse_data_line_known\<close> shows that \<open>parse_data_line\<close> is
  their composition.
\<close>

definition sweep_packets :: "context_t \<Rightarrow> event list" where
  "sweep_packets inc =
     (if sweep_count inc = 0 then []
      else [SR_DF_ANALOG SR_MQ_FREQUENCY SR_UNIT_HERTZ SR_MQFLAG_NONE
              (take (sweep_count inc) (sweep_freq inc)),
            SR_DF_ANALOG SR_MQ_N_PORT_PARAMETER SR_UNIT_UNITLESS
              (if state inc = PS_NOISE_DATA then SR_MQFLAG_TWO_PORT_NOISE_DATA
               else SR_MQFLAG_KIND (parameter_kind inc))
              (take (wrap64 (sweep_count inc * data_set_entries inc)) (sweep_data inc))])"

definition detect_noise_start :: "context_t \<Rightarrow> ret \<times> context_t" where
  "detect_noise_start inc =
     (if file_version inc = 1 \<and> state inc = PS_DATA_LINES \<and>
         sweep_count inc \<noteq> 0 \<and> data_set_count inc \<noteq> 0 \<and>
         (case data_set inc of Some (f # fs) \<Rightarrow> last_freq inc \<ge> f | _ \<Rightarrow> False)
      then start_noise_data inc
      else (SR_OK, inc))"

definition complete_data_set :: "context_t \<Rightarrow> ret \<times> context_t" where
  "complete_data_set inc =
     (if num_vals_per_set inc \<noteq> 0
      then (let inc4 = (if data_set_count inc > num_vals_per_set inc
                        then sr_warn ''more data than expected in the last data-set'' inc
                        else inc)
            in if data_set_count inc4 \<ge> num_vals_per_set inc4
               then move_data_to_sweep inc4
               else (SR_OK, inc4))
      else (SR_OK, inc))"


text \<open>The header lines of a version 2 one-port with two frequencies, and a version 1 option line.\<close>

definition one_port_header :: string where
  "one_port_header =
     ''[Version] 2.0\<newline># hz S MA R 50\<newline>[Number of Ports] 1\<newline>[Number of Frequencies] 2\<newline>[Network Data]\<newline>''"

definition v1_option_line :: string where
  "v1_option_line = ''# HZ S MA R 50\<newline>''"

text \<open>Version 1: the context after the option line and a first data row.\<close>

definition v1_first_row :: "double list \<Rightarrow> context_t" where
  "v1_first_row vals =
     \<lparr>frequency_unit = 1, last_freq = 0, reference_resistance = 50,
      reference_resistances = None, parameter_kind = KIND_SCATTERING_PARAMETERS,
      number_format = FORMAT_MAGNITUDE_ANGLE, two_port_data_order = TP_ORDER_21_12,
      matrix_format = MF_FULL, sweep_points = 0, sweep_points_noise = 0,
      state = PS_DATA_LINES, num_ports = 0, num_references_found = 0,
      num_vals_per_set = 0, file_version = 1, started = True,
      data_set = Some (vals @ replicate (512 - length vals) 0), data_set_size = 512,
      data_set_count = length vals,
      sweep_freq = [], sweep_data = [], sweep_count = 0, sweep_size = 0,
      session = [SR_DF_HEADER, SR_DF_FRAME_BEGIN], heap = (\<lambda>n. 0)\<rparr>"

text \<open>Version 1: a one-port after the rows \<^verbatim>\<open>1 1 0\<close> and \<^verbatim>\<open>2 1 0\<close>.\<close>

definition one_port_two_points :: context_t where
  "one_port_two_points =
     (v1_first_row [2, 1, 0])
       \<lparr>last_freq := 2, reference_resistances := Some [50], num_ports := 1,
        num_vals_per_set := 3, data_set_count := 0,
        sweep_freq := [1, 2] @ replicate 510 0, sweep_data := [1, 0, 1, 0] @ replicate 1020 0,
        sweep_count := 2, sweep_size := 512,
        session := [SR_DF_HEADER, SR_DF_FRAME_BEGIN,
                    SR_DF_ANALOG SR_MQ_RESISTANCE SR_UNIT_OHM SR_MQFLAG_REFERENCE [50]]\<rparr>"

text \<open>
  The values of the data set in progress; the test of line 727 of \<^verbatim>\<open>parse_data_line\<close> and
  the block it guards (lines 727 to 737), which infers the number of ports from the first
  data set of a version 1 file and stores that data set; and the conversion in place of a
  noise row (lines 612 to 614 of \<^verbatim>\<open>move_data_to_sweep\<close>). \<open>parse_data_line_steps\<close> shows that
  \<open>parse_data_line\<close> is \<open>infer_ports\<close>, \<open>add_data_to_set\<close>, \<open>detect_noise_start\<close> and
  \<open>complete_data_set\<close> in a row.
\<close>

definition pending :: "context_t \<Rightarrow> double list" where
  "pending inc = (case data_set inc of None \<Rightarrow> [] | Some ds \<Rightarrow> take (data_set_count inc) ds)"

definition infers_ports :: "context_t \<Rightarrow> double list \<Rightarrow> bool" where
  "infers_ports inc vals =
     (num_ports inc = 0 \<and> file_version inc = 1 \<and> data_set_count inc \<noteq> 0 \<and>
      length vals mod 2 \<noteq> 0)"

definition infer_ports :: "context_t \<Rightarrow> double list \<Rightarrow> ret \<times> context_t" where
  "infer_ports inc vals =
     (if infers_ports inc vals
      then (case calc_num_ports inc of
              (ra, ia) \<Rightarrow>
                (if ra \<noteq> SR_OK then (ra, ia)
                 else (case send_reference_information ia of
                         (rb, ib) \<Rightarrow>
                           (if rb \<noteq> SR_OK then (rb, ib)
                            else move_data_to_sweep ib))))
      else (SR_OK, inc))"

definition noise_row :: "double list \<Rightarrow> double list" where
  "noise_row ds =
     (let ds1 = ds[1 := confNF2F (ds ! 1)]
      in ds1[2 := fst (convma (ds1 ! 2, ds1 ! 3)), 3 := snd (convma (ds1 ! 2, ds1 ! 3))])"

text \<open>
  The chunker. \<open>normalise\<close> is the three statements of \<^verbatim>\<open>process_buffer\<close> that rewrite the
  buffer (lines 988 to 994), and \<open>norm_char\<close> what they do to one character of a buffer
  without a NUL byte. \<open>partial_line\<close> is the text after the last newline (the whole text
  when there is none), \<open>complete_text\<close> the text before it, \<open>complete_lines\<close> the lines of
  that text in their order.
\<close>

definition LF :: char where
  "LF = CHR 0x0A"

definition normalise :: "string \<Rightarrow> string" where
  "normalise s =
     replace_char (CHR 0x0D) (CHR 0x0A) (replace_char (CHR 0x09) (CHR '' '') (map g_ascii_toupper s))"

definition partial_line :: "string \<Rightarrow> string" where
  "partial_line t = rev (takeWhile (\<lambda>c. c \<noteq> LF) (rev t))"

definition complete_text :: "string \<Rightarrow> string" where
  "complete_text t = rev (tl (dropWhile (\<lambda>c. c \<noteq> LF) (rev t)))"

definition complete_lines :: "string \<Rightarrow> string list" where
  "complete_lines t = (if LF \<in> set t then split_pieces LF (complete_text t) else [])"

definition norm_char :: "char \<Rightarrow> char" where
  "norm_char c =
     (let u = g_ascii_toupper c; v = (if u = CHR 0x09 then CHR '' '' else u)
      in if v = CHR 0x0D then CHR 0x0A else v)"

text \<open>
  A line handler that never clears \<open>started\<close>; the in-order delivery of the complete lines
  of a text by the loop of \<^verbatim>\<open>process_buffer\<close>, which strips each line, skips the empty ones
  and stops at the first line the handler refuses; and whether a sequence of calls of
  \<^verbatim>\<open>receive\<close> reaches \<^verbatim>\<open>process_buffer\<close> (the first call on a new input only buffers).
\<close>

definition keeps_started :: "(context_t \<Rightarrow> string \<Rightarrow> ret \<times> context_t) \<Rightarrow> bool" where
  "keeps_started h = (\<forall>inc line. started inc \<longrightarrow> started (snd (h inc line)))"

definition delivered :: "(context_t \<Rightarrow> string \<Rightarrow> ret \<times> context_t) \<Rightarrow> context_t \<Rightarrow> string \<Rightarrow> ret \<times> context_t" where
  "delivered h inc text = process_lines_with h (begin_session inc) (complete_lines (normalise text))"

definition flushed :: "sr_input \<Rightarrow> string list \<Rightarrow> bool" where
  "flushed inp cs = (if sdi_ready inp then cs \<noteq> [] else 2 \<le> length cs)"

section \<open>The integer square root\<close>

text \<open>
  \<^verbatim>\<open>sqrti\<close> is the bit-by-bit square root on a 32-bit argument: 16 rounds, each consuming two
  bits of the argument. After \<open>i\<close> rounds \<open>root\<close> is the square root of the consumed bits and
  \<open>rem\<close> the remainder.
\<close>

lemma or_low_bits: "q < 4 \<Longrightarrow> push_bit 2 m OR q = push_bit 2 m + (q::nat)"
proof -
  assume "q < 4"
  then have q: "take_bit 2 q = q" by (simp add: take_bit_nat_eq_self)
  have "push_bit 2 m AND take_bit 2 q = 0"
    by (rule bit_eqI) (auto simp: bit_and_iff bit_push_bit_iff bit_take_bit_iff)
  then show ?thesis using q by (simp add: disjunctive_add_eq_or)
qed

lemma unat_shl1:
  fixes w :: "32 word"
  assumes "unat w < 2 ^ 31"
  shows "unat (push_bit 1 w) = 2 * unat w"
proof -
  have "unat w * unat (2 :: 32 word) < 2 ^ LENGTH(32)" using assms by simp
  then have "unat (w * 2) = unat w * unat (2 :: 32 word)"
    by (simp only: unat_mult_lem)
  then show ?thesis by (simp add: push_bit_eq_mult)
qed

lemma unat_shl2:
  fixes w :: "32 word"
  shows "unat (push_bit 2 w) = (4 * unat w) mod 2 ^ 32"
proof -
  have "unat (w * 4) = unat w * unat (4 :: 32 word) mod 2 ^ LENGTH(32)"
    by (rule unat_word_ariths(2))
  then show ?thesis by (simp add: push_bit_eq_mult mult.commute)
qed

lemma unat_shr30:
  fixes a :: "32 word"
  shows "unat (drop_bit (32 - 2) a) = unat a div 2 ^ 30" "unat a div 2 ^ 30 < 4"
proof -
  have "unat (a div 2 ^ 30) = unat a div unat (2 ^ 30 :: 32 word)" by (rule unat_div)
  then show "unat (drop_bit (32 - 2) a) = unat a div 2 ^ 30"
    by (simp add: drop_bit_eq_div)
  have "unat a < 2 ^ 32" using unsigned_less [of a] by simp
  then show "unat a div 2 ^ 30 < 4" by (simp add: less_mult_imp_div_less)
qed

lemma unat_rem1:
  fixes r a :: "32 word"
  assumes "unat r < 2 ^ 30"
  shows "unat (push_bit 2 r OR drop_bit (32 - 2) a) = 4 * unat r + unat a div 2 ^ 30"
proof -
  have p: "unat (push_bit 2 r) = push_bit 2 (unat r)"
    using assms by (simp only: unat_shl2) (simp add: push_bit_eq_mult)
  have "unat (push_bit 2 r OR drop_bit (32 - 2) a) = unat (push_bit 2 r) OR unat (drop_bit (32 - 2) a)"
    by (rule unsigned_or_eq)
  also have "\<dots> = push_bit 2 (unat r) OR (unat a div 2 ^ 30)"
    by (simp only: p unat_shr30(1))
  also have "\<dots> = push_bit 2 (unat r) + unat a div 2 ^ 30"
    by (rule or_low_bits) (rule unat_shr30(2))
  finally show ?thesis by (simp add: push_bit_eq_mult)
qed

lemma unat_or1:
  fixes w :: "32 word"
  assumes "unat w < 2 ^ 31"
  shows "unat (push_bit 1 w OR 1) = 2 * unat w + 1"
proof -
  have "push_bit 1 w OR 1 = push_bit 1 w + 1"
    by (simp add: or_one_eq push_bit_eq_mult)
  moreover have "unat (push_bit 1 w) + unat (1 :: 32 word) < 2 ^ LENGTH(32)"
    using assms unfolding unat_shl1 [OF assms] by simp
  then have "unat (push_bit 1 w + 1) = unat (push_bit 1 w) + unat (1 :: 32 word)"
    by (simp only: unat_add_lem)
  ultimately show ?thesis unfolding unat_shl1 [OF assms] by simp
qed

lemma unat_add2:
  fixes w :: "32 word"
  assumes "unat w < 2 ^ 31 - 1"
  shows "unat (push_bit 1 w + 2) = 2 * unat w + 2"
proof -
  have w: "unat w < 2 ^ 31" using assms by simp
  have "unat (push_bit 1 w) + unat (2 :: 32 word) < 2 ^ LENGTH(32)"
    using assms unfolding unat_shl1 [OF w] by simp
  then have "unat (push_bit 1 w + 2) = unat (push_bit 1 w) + unat (2 :: 32 word)"
    by (simp only: unat_add_lem)
  then show ?thesis unfolding unat_shl1 [OF w] by simp
qed


lemma div_split: "0 < d \<Longrightarrow> x div d = (x div (d * c)) * c + (x mod (d * c)) div (d::nat)"
proof -
  assume dpos: "0 < d"
  define q where "q = x div (d * c)"
  define m where "m = x mod (d * c)"
  have "x = q * (d * c) + m" unfolding q_def m_def by (rule div_mult_mod_eq [symmetric])
  then have "x = q * c * d + m" by (simp add: algebra_simps)
  then have "x div d = (q * c * d + m) div d" by simp
  also have "\<dots> = q * c + m div d"
    using dpos by simp
  finally show ?thesis by (simp only: q_def m_def)
qed

lemma top_bits_step:
  assumes "i < 16"
  shows "top_bits (Suc i) a = (unat a div 2 ^ 30) * 4 ^ i + top_bits i (push_bit 2 a)"
proof -
  define d :: nat where "d = 2 ^ (30 - 2 * i)"
  define c :: nat where "c = 4 ^ i"
  have dpos: "0 < d" by (simp add: d_def)
  have c2: "c = 2 ^ (2 * i)" by (simp add: c_def power_mult)
  have "d * c = 2 ^ ((30 - 2 * i) + 2 * i)" unfolding d_def c2 by (simp only: power_add)
  then have dc: "d * c = 2 ^ 30" using assms by simp
  have e1: "(2::nat) ^ (32 - 2 * Suc i) = d" by (simp add: d_def)
  have "32 - 2 * i = 2 + (30 - 2 * i)" using assms by simp
  then have "(2::nat) ^ (32 - 2 * i) = 2 ^ 2 * 2 ^ (30 - 2 * i)" by (simp only: power_add)
  then have e2: "(2::nat) ^ (32 - 2 * i) = 4 * d" by (simp add: d_def)
  let ?x = "unat a"
  have "(2::nat) ^ 32 = 4 * (d * c)" by (simp add: dc)
  then have m: "(4 * ?x) mod 2 ^ 32 = 4 * (?x mod (d * c))"
    by (simp only: mult_mod_right)
  have s: "?x div d = (?x div (d * c)) * c + (?x mod (d * c)) div d"
    using dpos by (rule div_split)
  have q: "(4 * (?x mod (d * c))) div (4 * d) = (?x mod (d * c)) div d"
    by simp
  have "top_bits (Suc i) a = ?x div d" by (simp only: top_bits_def e1)
  moreover have "top_bits i (push_bit 2 a) = (?x mod (d * c)) div d"
    by (simp only: top_bits_def e2 unat_shl2 m q)
  ultimately have "top_bits (Suc i) a = (?x div (d * c)) * c + top_bits i (push_bit 2 a)"
    using s by simp
  then have "top_bits (Suc i) a = (?x div 2 ^ 30) * c + top_bits i (push_bit 2 a)"
    by (simp only: dc)
  then show ?thesis by (simp only: c_def)
qed

lemma isqrt_unique:
  assumes "s * s \<le> n" "n < (s + 1) * (s + 1)"
  shows "isqrt n = s"
proof -
  have "(real s)\<^sup>2 \<le> real n"
    using assms(1) by (metis of_nat_le_iff of_nat_mult power2_eq_square)
  then have lo: "real s \<le> sqrt (real n)" by (rule real_le_rsqrt)
  have "real n < (real s + 1)\<^sup>2"
    using assms(2) by (metis of_nat_less_iff of_nat_mult of_nat_add of_nat_1 power2_eq_square)
  then have hi: "sqrt (real n) < real s + 1" by (intro real_less_lsqrt) auto
  have "\<lfloor>sqrt (real n)\<rfloor> = int s"
    using lo hi by (intro floor_unique) auto
  then show ?thesis by (simp add: isqrt_def)
qed

lemma isqrt_square: "isqrt (k * k) = k"
  by (rule isqrt_unique) auto

lemma sqrti_loop_inv:
  "i \<le> 16 \<Longrightarrow> unat root' = 2 * r \<Longrightarrow> unat rem' \<le> 2 * r \<Longrightarrow> r < 2 ^ (16 - i) \<Longrightarrow>
   \<exists>s. unat (sqrti_loop i a rem' root') = 2 * s \<and> s < 2 ^ 16 \<and>
       s * s \<le> (r * r + unat rem') * 4 ^ i + top_bits i a \<and>
       (r * r + unat rem') * 4 ^ i + top_bits i a < (s + 1) * (s + 1)"
proof (induction i arbitrary: a rem' root' r)
  case 0
  have "unat a < 2 ^ 32" using unsigned_less [of a] by simp
  then have t: "top_bits 0 a = 0" by (simp add: top_bits_def)
  have "r * r + unat rem' < (r + 1) * (r + 1)" using 0(3) by simp
  then show ?case using 0 t by (intro exI [of _ r]) simp
next
  case (Suc k)
  then have k: "k < 16" by simp
  have p2: "(2::nat) ^ (16 - k) = 2 * 2 ^ (16 - Suc k)"
  proof -
    have "16 - k = Suc (16 - Suc k)" using k by simp
    then show ?thesis by (simp only: power_Suc)
  qed
  have "(2::nat) ^ (16 - Suc k) \<le> 2 ^ 15" by (intro power_increasing) auto
  then have r15: "r < 2 ^ 15" using Suc.prems(4) by simp
  have root31: "unat root' < 2 ^ 31" "unat root' < 2 ^ 31 - 1" using Suc.prems(2) r15 by simp_all
  have rem30: "unat rem' < 2 ^ 30" using Suc.prems(3) r15 by simp
  define hi where "hi = unat a div 2 ^ 30"
  have hi4: "hi < 4" unfolding hi_def by (rule unat_shr30(2))
  let ?root1 = "push_bit 1 root'"
  let ?rem1 = "push_bit 2 rem' OR drop_bit (32 - 2) a"
  let ?a1 = "push_bit 2 a"
  have u_root1: "unat ?root1 = 4 * r" using unat_shl1 [OF root31(1)] Suc.prems(2) by simp
  have u_rem1: "unat ?rem1 = 4 * unat rem' + hi" unfolding hi_def by (rule unat_rem1 [OF rem30])
  have tb: "top_bits (Suc k) a = hi * 4 ^ k + top_bits k ?a1"
    unfolding hi_def by (rule top_bits_step [OF k])
  have V: "(r * r + unat rem') * 4 ^ Suc k + top_bits (Suc k) a =
           (4 * (r * r) + 4 * unat rem' + hi) * 4 ^ k + top_bits k ?a1"
    by (simp add: tb algebra_simps)
  show ?case
  proof (cases "?root1 < ?rem1")
    case True
    then have lt: "4 * r < 4 * unat rem' + hi"
      unfolding word_less_nat_alt u_root1 u_rem1 .
    have u_or: "unat (?root1 OR 1) = 4 * r + 1"
      using unat_or1 [OF root31(1)] Suc.prems(2) by simp
    have "?root1 OR 1 \<le> ?rem1"
      unfolding word_le_nat_alt u_or u_rem1 using lt by simp
    then have u_rem: "unat (?rem1 - (?root1 OR 1)) = 4 * unat rem' + hi - (4 * r + 1)"
      by (simp only: unat_sub u_or u_rem1)
    have u_root: "unat (?root1 + 2) = 2 * (2 * r + 1)"
      using unat_add2 [OF root31(2)] Suc.prems(2) by simp
    have b1: "unat (?rem1 - (?root1 OR 1)) \<le> 2 * (2 * r + 1)"
      using u_rem Suc.prems(3) hi4 by simp
    have b2: "2 * r + 1 < 2 ^ (16 - k)" using Suc.prems(4) p2 by simp
    have kk: "k \<le> 16" using k by simp
    from Suc.IH [OF kk u_root b1 b2, of ?a1]
    obtain s where s: "unat (sqrti_loop k ?a1 (?rem1 - (?root1 OR 1)) (?root1 + 2)) = 2 * s"
      "s < 2 ^ 16"
      "s * s \<le> ((2 * r + 1) * (2 * r + 1) + unat (?rem1 - (?root1 OR 1))) * 4 ^ k + top_bits k ?a1"
      "((2 * r + 1) * (2 * r + 1) + unat (?rem1 - (?root1 OR 1))) * 4 ^ k + top_bits k ?a1 < (s + 1) * (s + 1)"
      by blast
    have e: "(2 * r + 1) * (2 * r + 1) + unat (?rem1 - (?root1 OR 1)) = 4 * (r * r) + 4 * unat rem' + hi"
      unfolding u_rem using lt by (simp add: algebra_simps)
    have res: "sqrti_loop (Suc k) a rem' root' = sqrti_loop k ?a1 (?rem1 - (?root1 OR 1)) (?root1 + 2)"
      using True by (simp only: sqrti_loop.simps Let_def if_True)
    show ?thesis
      using s unfolding res V e by blast
  next
    case False
    then have "\<not> 4 * r < 4 * unat rem' + hi"
      unfolding word_less_nat_alt u_root1 u_rem1 .
    then have ge: "4 * unat rem' + hi \<le> 4 * r" by simp
    have u_root: "unat ?root1 = 2 * (2 * r)" using u_root1 by simp
    have b1: "unat ?rem1 \<le> 2 * (2 * r)" using ge u_rem1 by simp
    have b2: "2 * r < 2 ^ (16 - k)" using Suc.prems(4) p2 by simp
    have kk: "k \<le> 16" using k by simp
    from Suc.IH [OF kk u_root b1 b2, of ?a1]
    obtain s where s: "unat (sqrti_loop k ?a1 ?rem1 ?root1) = 2 * s"
      "s < 2 ^ 16"
      "s * s \<le> ((2 * r) * (2 * r) + unat ?rem1) * 4 ^ k + top_bits k ?a1"
      "((2 * r) * (2 * r) + unat ?rem1) * 4 ^ k + top_bits k ?a1 < (s + 1) * (s + 1)"
      by blast
    have e: "(2 * r) * (2 * r) + unat ?rem1 = 4 * (r * r) + 4 * unat rem' + hi"
      unfolding u_rem1 by simp
    have res: "sqrti_loop (Suc k) a rem' root' = sqrti_loop k ?a1 ?rem1 ?root1"
      using False by (simp only: sqrti_loop.simps Let_def if_False)
    show ?thesis
      using s unfolding res V e by blast
  qed
qed

lemma sqrti_correct:
  "unat (sqrti a) * unat (sqrti a) \<le> unat a \<and>
   unat a < (unat (sqrti a) + 1) * (unat (sqrti a) + 1) \<and> unat (sqrti a) < 2 ^ 16"
proof -
  have "\<exists>s. unat (sqrti_loop 16 a 0 0) = 2 * s \<and> s < 2 ^ 16 \<and>
       s * s \<le> (0 * 0 + unat (0 :: 32 word)) * 4 ^ 16 + top_bits 16 a \<and>
       (0 * 0 + unat (0 :: 32 word)) * 4 ^ 16 + top_bits 16 a < (s + 1) * (s + 1)"
    by (rule sqrti_loop_inv) simp_all
  then obtain s where s: "unat (sqrti_loop 16 a 0 0) = 2 * s" "s < 2 ^ 16"
      "s * s \<le> unat a" "unat a < (s + 1) * (s + 1)"
    by (auto simp: top_bits_def)
  have "unat (sqrti_loop 16 a 0 0 div 2) = unat (sqrti_loop 16 a 0 0) div unat (2 :: 32 word)"
    by (rule unat_div)
  then have "unat (drop_bit 1 (sqrti_loop 16 a 0 0)) = unat (sqrti_loop 16 a 0 0) div 2"
    by (simp add: drop_bit_eq_div)
  then have d: "unat (drop_bit 1 (sqrti_loop 16 a 0 0)) = s" using s(1) by simp
  have "unat (sqrti a) = take_bit 16 (unat (drop_bit 1 (sqrti_loop 16 a 0 0)))"
    by (simp add: sqrti_def unsigned_ucast_eq)
  also have "\<dots> = s" unfolding d using s(2) by (simp add: take_bit_nat_eq_self)
  finally show ?thesis using s by simp
qed

lemma sqrti_isqrt: "unat (sqrti a) = isqrt (unat a)"
  using sqrti_correct [of a] by (intro isqrt_unique [symmetric]) auto

lemma odd_square_form:
  "(\<exists>k. n = 2 * k * k + 1) \<longleftrightarrow> 2 * (isqrt ((n - 1) div 2))\<^sup>2 + 1 = n"
proof
  assume "\<exists>k. n = 2 * k * k + 1"
  then obtain k where k: "n = 2 * k * k + 1" by blast
  then have "(n - 1) div 2 = k * k" by simp
  then show "2 * (isqrt ((n - 1) div 2))\<^sup>2 + 1 = n"
    using k by (simp add: isqrt_square power2_eq_square)
next
  assume "2 * (isqrt ((n - 1) div 2))\<^sup>2 + 1 = n"
  then have "n = 2 * isqrt ((n - 1) div 2) * isqrt ((n - 1) div 2) + 1"
    by (simp add: power2_eq_square)
  then show "\<exists>k. n = 2 * k * k + 1" by blast
qed

text \<open>
  Claim C4. For a data set of fewer than \<open>2 ^ 33\<close> values, \<^verbatim>\<open>calc_num_ports\<close> sets
  \<open>num_vals_per_set\<close> to the accumulated length \<open>n\<close> and \<open>num_ports\<close> to the integer square root
  of \<open>n div 2\<close>. It succeeds exactly when \<open>2 * N\<^sup>2 + 1 = n\<close> for \<open>N = isqrt ((n - 1) div 2)\<close>, that
  is exactly when \<open>n\<close> is \<open>2 * k\<^sup>2 + 1\<close> for some \<open>k\<close>; on success the stored number of ports is
  that \<open>N\<close>, and every failure is \<open>SR_ERR\<close>.
\<close>

theorem port_inference:
  assumes "data_set_count inc div 2 < 2 ^ 32"
  shows "num_vals_per_set (snd (calc_num_ports inc)) = data_set_count inc \<and>
         num_ports (snd (calc_num_ports inc)) = isqrt (data_set_count inc div 2) \<and>
         (fst (calc_num_ports inc) = SR_OK \<longleftrightarrow>
            2 * (isqrt ((data_set_count inc - 1) div 2))\<^sup>2 + 1 = data_set_count inc) \<and>
         (fst (calc_num_ports inc) = SR_OK \<longleftrightarrow> (\<exists>k. data_set_count inc = 2 * k * k + 1)) \<and>
         (fst (calc_num_ports inc) = SR_OK \<longrightarrow>
            num_ports (snd (calc_num_ports inc)) = isqrt ((data_set_count inc - 1) div 2)) \<and>
         (fst (calc_num_ports inc) \<noteq> SR_OK \<longrightarrow> fst (calc_num_ports inc) = SR_ERR)"
proof -
  define n where "n = data_set_count inc"
  define N where "N = unat (sqrti (of_nat (n div 2)))"
  have u: "unat (of_nat (n div 2) :: 32 word) = n div 2"
    using assms by (simp add: n_def unat_of_nat)
  have N: "N = isqrt (n div 2)" by (simp add: N_def sqrti_isqrt u)
  have "N < 2 ^ 16" using sqrti_correct [of "of_nat (n div 2)"] by (simp add: N_def)
  then have "N * N < 2 ^ 16 * 2 ^ 16" by (intro mult_strict_mono) auto
  then have w: "wrap64 (N * N * 2 + 1) = N * N * 2 + 1" by (simp add: wrap64_def)
  have ok: "fst (calc_num_ports inc) = SR_OK \<longleftrightarrow> N * N * 2 + 1 = n"
    using w by (simp add: calc_num_ports_def Let_def n_def [symmetric] N_def [symmetric])
  have np: "num_ports (snd (calc_num_ports inc)) = N"
    by (simp add: calc_num_ports_def Let_def sr_err_def n_def [symmetric] N_def [symmetric])
  have nv: "num_vals_per_set (snd (calc_num_ports inc)) = n"
    by (simp add: calc_num_ports_def Let_def sr_err_def n_def [symmetric])
  have er: "fst (calc_num_ports inc) \<noteq> SR_OK \<longrightarrow> fst (calc_num_ports inc) = SR_ERR"
    by (simp add: calc_num_ports_def Let_def)
  have form: "N * N * 2 + 1 = n \<longleftrightarrow> (\<exists>k. n = 2 * k * k + 1)"
  proof
    assume "N * N * 2 + 1 = n"
    then have "n = 2 * N * N + 1" by simp
    then show "\<exists>k. n = 2 * k * k + 1" by blast
  next
    assume "\<exists>k. n = 2 * k * k + 1"
    then obtain k where k: "n = 2 * k * k + 1" by blast
    then have "n div 2 = k * k" by simp
    then have "N = k" by (simp add: N isqrt_square)
    then show "N * N * 2 + 1 = n" using k by simp
  qed
  have same: "N * N * 2 + 1 = n \<Longrightarrow> N = isqrt ((n - 1) div 2)"
  proof -
    assume a: "N * N * 2 + 1 = n"
    then have "(n - 1) div 2 = n div 2" by auto
    then show ?thesis using N by simp
  qed
  show ?thesis
    using ok np nv er form same N odd_square_form [of n]
    unfolding n_def [symmetric] by auto
qed

text \<open>The values the worked examples need.\<close>

lemma sqrti_values: "unat (sqrti 0) = 0" "unat (sqrti 1) = 1" "unat (sqrti 4) = 2" "unat (sqrti 9) = 3"
proof -
  show "unat (sqrti 0) = 0" using isqrt_square [of 0] by (simp add: sqrti_isqrt)
  show "unat (sqrti 1) = 1" using isqrt_square [of 1] by (simp add: sqrti_isqrt)
  show "unat (sqrti 4) = 2" using isqrt_square [of 2] by (simp add: sqrti_isqrt)
  show "unat (sqrti 9) = 3" using isqrt_square [of 3] by (simp add: sqrti_isqrt)
qed


section \<open>Evaluation of the model on concrete inputs\<close>

lemmas str_defs = g_str_has_prefix_def char0_def fwd_to_def g_strchug_def g_strchomp_def g_strstrip_def
  g_ascii_isspace_def isspace_def g_strsplit_def sr_atod_def sr_atoi_def split_sign_def is_digit_def
  digits_value_def NUL_def c_str_def strip_comment_def g_ascii_toupper_def g_strrstr_len_def
  replace_char_def

lemmas run_defs = run_def receive_all_def receive_def receive_with_def end_input_def end_with_def
  process_buffer_with_def begin_session_def sr_session_send_def init_def

lemmas line_defs = process_line_def parse_option_line_def parse_version_line_def parse_key_line_def
  parse_data_line_def parse_data_line_numbers_def calc_num_ports_def start_noise_data_def
  parse_references_def size_t_of_int_def

lemmas store_defs = move_data_to_sweep_def prepare_sweep_mem_def add_data_to_set_def
  prepare_data_set_memory_def send_sweep_information_def send_reference_information_def
  data_set_entries_def g_malloc_def memcpy_def wrap64_def INITIAL_DATA_SET_SIZE_def
  move_matrix_def move_rows_def copy_row_def convert_matrix_def number_conv_def
  convma_def convdba_def convri_def confNF2F_def sr_warn_def sr_err_def

lemma small_upt:
  "[0..<1] = [0]" "[0..<2] = [0, 1]" "[1..<2] = [1]" "[Suc 0..<2] = [Suc 0]" "[2..<2] = []"
  "[0..<Suc 0] = [0]"
  by (simp_all add: upt_rec)

lemma small_replicate:
  "replicate 1 x = [x]" "replicate 2 x = [x, x]" "replicate 3 x = [x, x, x]"
  "replicate 4 x = [x, x, x, x]" "replicate 5 x = [x, x, x, x, x]"
  "replicate 6 x = [x, x, x, x, x, x]" "replicate 7 x = [x, x, x, x, x, x, x]"
  "replicate 8 x = [x, x, x, x, x, x, x, x]"
  by (simp_all add: numeral_eq_Suc)

lemmas eval_defs = str_defs run_defs line_defs store_defs Let_def map_replicate_const
  small_upt small_replicate fill_lower_def fill_upper_def copy_pair_def swap21_12_def
  new_input_def two_port_header_def two_port_upper_header_def three_port_header_def
  after_header_def two_port_one_point_def upper_row_loaded_def

lemma reach_two_port:
  "receive_all new_input [two_port_header, ''''] =
     (SR_OK, \<lparr>buf = [], sdi_ready = True, priv = after_header 2 9 1 MF_FULL\<rparr>)"
  by (simp add: eval_defs del: upt_rec_numeral)

lemma reach_two_port_upper:
  "receive_all new_input [two_port_upper_header, ''''] =
     (SR_OK, \<lparr>buf = [], sdi_ready = True, priv = after_header 2 7 1 MF_UPPER\<rparr>)"
  by (simp add: eval_defs del: upt_rec_numeral)

lemma reach_three_port:
  "receive_all new_input [three_port_header, ''''] =
     (SR_OK, \<lparr>buf = [], sdi_ready = True, priv = after_header 3 19 0 MF_FULL\<rparr>)"
  by (simp add: eval_defs del: upt_rec_numeral)

lemma reach_two_port_one_point:
  "receive_all new_input [two_port_header @ ''1 1 0 1 0 1 0 1 0\<newline>'', ''''] =
     (SR_OK, \<lparr>buf = [], sdi_ready = True, priv = two_port_one_point\<rparr>)"
  by (simp add: eval_defs del: upt_rec_numeral)

lemma reach_upper_row_loaded:
  "add_data_to_set (after_header 2 7 1 MF_UPPER) [1, 1, 180, 2, 180, 3, 180] = (SR_OK, upper_row_loaded)"
  by (simp add: eval_defs del: upt_rec_numeral)

lemma move_upper_row:
  "move_data_to_sweep upper_row_loaded =
     (SR_OK, upper_row_loaded\<lparr>last_freq := 1, sweep_freq := [1],
        sweep_data := [1, pi, 2, pi, 2, pi, 3, 180], sweep_count := 1, sweep_size := 1,
        data_set_count := 0\<rparr>)"
  by (simp add: eval_defs del: upt_rec_numeral)

lemma replicate_512: "replicate 512 x = x # x # replicate 510 x"
proof -
  have "(512::nat) = Suc (Suc 510)" by simp
  then show ?thesis by (simp only: replicate_Suc)
qed

lemmas eval2_defs = eval_defs sqrti_values replicate_512 one_port_header_def v1_option_line_def
  v1_first_row_def one_port_two_points_def

lemma reach_v1_nine:
  "receive_all new_input [v1_option_line @ ''1 1 0 1 0 1 0 1 0\<newline>'', ''''] =
     (SR_OK, \<lparr>buf = [], sdi_ready = True, priv = v1_first_row [1, 1, 0, 1, 0, 1, 0, 1, 0]\<rparr>)"
  by (simp add: eval2_defs del: upt_rec_numeral)

lemma reach_v1_eight:
  "receive_all new_input [v1_option_line @ ''1 1 0 1 0 1 0 1\<newline>'', ''''] =
     (SR_OK, \<lparr>buf = [], sdi_ready = True, priv = v1_first_row [1, 1, 0, 1, 0, 1, 0, 1]\<rparr>)"
  by (simp add: eval2_defs del: upt_rec_numeral)

lemma reach_one_port_two_points:
  "receive_all new_input [v1_option_line @ ''1 1 0\<newline>2 1 0\<newline>'', ''''] =
     (SR_OK, \<lparr>buf = [], sdi_ready = True, priv = one_port_two_points\<rparr>)"
  by (simp add: eval2_defs del: upt_rec_numeral)

lemma reach_one_port:
  "receive_all new_input [one_port_header, ''''] =
     (SR_OK, \<lparr>buf = [], sdi_ready = True, priv = after_header 1 3 2 MF_FULL\<rparr>)"
  by (simp add: eval2_defs del: upt_rec_numeral)


section \<open>Matrix mirroring\<close>

subsection \<open>Mirroring\<close>

lemma length_copy_pair: "length (copy_pair dst src a) = length a"
  by (simp add: copy_pair_def Let_def)

lemma copy_pair_nth:
  "2 * dst + 1 < length a \<Longrightarrow>
   copy_pair dst src a ! n =
     (if n = 2 * dst then a ! (2 * src)
      else if n = 2 * dst + 1 then a ! (2 * src + 1)
      else a ! n)"
proof -
  have neq: "2 * src + 1 \<noteq> 2 * dst" by presburger
  assume "2 * dst + 1 < length a"
  then show ?thesis using neq
    by (simp add: copy_pair_def Let_def nth_list_update)
qed

lemma mirror_row_Suc:
  "i < m \<Longrightarrow> mirror_row g i (Suc m) a = copy_pair (g m i) (g i m) (mirror_row g i m a)"
  by (simp add: mirror_row_def)

lemma mirror_row_inv:
  assumes ok: "cells_ok g N (length a)" and i: "i < N"
  shows "m \<le> N \<Longrightarrow>
         length (mirror_row g i m a) = length a \<and>
         (\<forall>r<N. \<forall>c<N.
            mirror_row g i m a ! (2 * g r c) =
              (if c = i \<and> i < r \<and> r < m then a ! (2 * g i r) else a ! (2 * g r c)) \<and>
            mirror_row g i m a ! (2 * g r c + 1) =
              (if c = i \<and> i < r \<and> r < m then a ! (2 * g i r + 1) else a ! (2 * g r c + 1)))"
proof (induction m)
  case 0
  then show ?case by (simp add: mirror_row_def)
next
  case (Suc m)
  then have mN: "m < N" and IH: "length (mirror_row g i m a) = length a"
    "\<And>r c. r < N \<Longrightarrow> c < N \<Longrightarrow>
       mirror_row g i m a ! (2 * g r c) =
         (if c = i \<and> i < r \<and> r < m then a ! (2 * g i r) else a ! (2 * g r c)) \<and>
       mirror_row g i m a ! (2 * g r c + 1) =
         (if c = i \<and> i < r \<and> r < m then a ! (2 * g i r + 1) else a ! (2 * g r c + 1))"
    by auto
  show ?case
  proof (cases "i < m")
    case False
    then have "[i + 1 ..< Suc m] = []" "[i + 1 ..< m] = []" by auto
    then have "mirror_row g i (Suc m) a = a" by (simp add: mirror_row_def)
    moreover have "\<not> (i < r \<and> r < Suc m)" for r using False by auto
    ultimately show ?thesis by auto
  next
    case True
    let ?b = "mirror_row g i m a"
    have step: "mirror_row g i (Suc m) a = copy_pair (g m i) (g i m) ?b"
      using True by (rule mirror_row_Suc)
    have bnd: "2 * g m i + 1 < length ?b"
      using ok mN i IH(1) by (simp add: cells_ok_def)
    have inj: "\<And>r c. r < N \<Longrightarrow> c < N \<Longrightarrow> (g r c = g m i) = (r = m \<and> c = i)"
      using ok mN i unfolding cells_ok_def by blast
    have src: "?b ! (2 * g i m) = a ! (2 * g i m)" "?b ! (2 * g i m + 1) = a ! (2 * g i m + 1)"
      using IH(2) [OF i mN] True by auto
    show ?thesis
    proof (intro conjI allI impI)
      show "length (mirror_row g i (Suc m) a) = length a"
        by (simp add: step length_copy_pair IH(1))
    next
      fix r c assume rc: "r < N" "c < N"
      have e: "(2 * g r c = 2 * g m i) = (r = m \<and> c = i)" using inj [OF rc] by simp
      have o: "2 * g r c \<noteq> 2 * g m i + 1" by presburger
      show "mirror_row g i (Suc m) a ! (2 * g r c) =
              (if c = i \<and> i < r \<and> r < Suc m then a ! (2 * g i r) else a ! (2 * g r c))"
        using IH(2) [OF rc] src True e o
        by (auto simp: step copy_pair_nth [OF bnd] less_Suc_eq)
    next
      fix r c assume rc: "r < N" "c < N"
      have e: "(2 * g r c + 1 = 2 * g m i + 1) = (r = m \<and> c = i)" using inj [OF rc] by simp
      have o: "2 * g r c + 1 \<noteq> 2 * g m i" by presburger
      show "mirror_row g i (Suc m) a ! (2 * g r c + 1) =
              (if c = i \<and> i < r \<and> r < Suc m then a ! (2 * g i r + 1) else a ! (2 * g r c + 1))"
        using IH(2) [OF rc] src True e o
        by (auto simp: step copy_pair_nth [OF bnd] less_Suc_eq)
    qed
  qed
qed

lemma mirror_rows_inv:
  assumes ok: "cells_ok g N (length a)"
  shows "n \<le> N \<Longrightarrow>
         length (mirror_rows g N n a) = length a \<and>
         (\<forall>r<N. \<forall>c<N.
            mirror_rows g N n a ! (2 * g r c) =
              (if c < r \<and> c < n then a ! (2 * g c r) else a ! (2 * g r c)) \<and>
            mirror_rows g N n a ! (2 * g r c + 1) =
              (if c < r \<and> c < n then a ! (2 * g c r + 1) else a ! (2 * g r c + 1)))"
proof (induction n)
  case 0
  then show ?case by (simp add: mirror_rows_def)
next
  case (Suc n)
  let ?b = "mirror_rows g N n a"
  from Suc have nN: "n < N" and len: "length ?b = length a" and
    IH: "\<And>r c. r < N \<Longrightarrow> c < N \<Longrightarrow>
       ?b ! (2 * g r c) = (if c < r \<and> c < n then a ! (2 * g c r) else a ! (2 * g r c)) \<and>
       ?b ! (2 * g r c + 1) = (if c < r \<and> c < n then a ! (2 * g c r + 1) else a ! (2 * g r c + 1))"
    by auto
  have step: "mirror_rows g N (Suc n) a = mirror_row g n N ?b"
    by (simp add: mirror_rows_def)
  have ok': "cells_ok g N (length ?b)" using ok len by simp
  note row = mirror_row_inv [OF ok' nN, of N, simplified]
  show ?case
  proof (intro conjI allI impI)
    show "length (mirror_rows g N (Suc n) a) = length a"
      using row len by (simp add: step)
  next
    fix r c assume rc: "r < N" "c < N"
    show "mirror_rows g N (Suc n) a ! (2 * g r c) =
            (if c < r \<and> c < Suc n then a ! (2 * g c r) else a ! (2 * g r c))"
      using row rc IH [OF rc] IH [OF nN rc(1)] nN
      by (auto simp: step less_Suc_eq)
  next
    fix r c assume rc: "r < N" "c < N"
    show "mirror_rows g N (Suc n) a ! (2 * g r c + 1) =
            (if c < r \<and> c < Suc n then a ! (2 * g c r + 1) else a ! (2 * g r c + 1))"
      using row rc IH [OF rc] IH [OF nN rc(1)] nN
      by (auto simp: step less_Suc_eq)
  qed
qed

lemma wrap64_pred: "0 < N \<Longrightarrow> N < 2 ^ 64 \<Longrightarrow> wrap64 (N + 2 ^ 64 - 1) = N - 1"
proof -
  assume a: "0 < N" "N < 2 ^ 64"
  then have "N + 2 ^ 64 - 1 = (N - 1) + 1 * 2 ^ 64" by simp
  then have "wrap64 (N + 2 ^ 64 - 1) = (N - 1) mod 2 ^ 64"
    unfolding wrap64_def by (metis mod_mult_self1)
  then show ?thesis using a by simp
qed

lemma cell_inj: "c < N \<Longrightarrow> c' < N \<Longrightarrow> r * N + c = r' * N + c' \<Longrightarrow> r = r' \<and> c = (c'::nat)"
proof -
  assume a: "c < N" "c' < N" "r * N + c = r' * N + c'"
  have "(r * N + c) div N = r" "(r * N + c) mod N = c" using a(1) by auto
  moreover have "(r' * N + c') div N = r'" "(r' * N + c') mod N = c'" using a(2) by auto
  ultimately show ?thesis using a(3) by metis
qed

lemma cell_bound: "r < N \<Longrightarrow> c < N \<Longrightarrow> 2 * (r * N + c) + 1 < 2 * N * (N::nat)"
proof -
  assume a: "r < N" "c < N"
  then have "r * N + c < r * N + N" by simp
  also have "\<dots> = Suc r * N" by simp
  also have "\<dots> \<le> N * N"
  proof (rule mult_le_mono1)
    show "Suc r \<le> N" using a(1) by simp
  qed
  finally have "r * N + c + 1 \<le> N * N" by simp
  then show ?thesis by simp
qed

lemma cells_ok_row_major: "2 * N * N \<le> len \<Longrightarrow> cells_ok (\<lambda>r c. r * N + c) N len"
  unfolding cells_ok_def using cell_inj cell_bound
  by (metis (no_types, lifting) less_le_trans)

lemma cells_ok_col_major: "2 * N * N \<le> len \<Longrightarrow> cells_ok (\<lambda>r c. c * N + r) N len"
  unfolding cells_ok_def using cell_inj cell_bound
  by (metis (no_types, lifting) less_le_trans)

lemma fill_lower_mirror:
  "0 < N \<Longrightarrow> N < 2 ^ 64 \<Longrightarrow> fill_lower a N = mirror_rows (\<lambda>r c. r * N + c) N (N - 1) a"
  by (simp only: fill_lower_def mirror_rows_def mirror_row_def wrap64_pred)

lemma fill_upper_mirror:
  "0 < N \<Longrightarrow> N < 2 ^ 64 \<Longrightarrow> fill_upper a N = mirror_rows (\<lambda>r c. c * N + r) N (N - 1) a"
  by (simp only: fill_upper_def mirror_rows_def mirror_row_def wrap64_pred)

lemma fill_lower_cells:
  assumes "0 < N" "N < 2 ^ 64" "2 * N * N \<le> length a" "r < N" "c < N"
  shows "fill_lower a N ! (2 * (r * N + c)) =
           (if c < r then a ! (2 * (c * N + r)) else a ! (2 * (r * N + c)))"
    and "fill_lower a N ! (2 * (r * N + c) + 1) =
           (if c < r then a ! (2 * (c * N + r) + 1) else a ! (2 * (r * N + c) + 1))"
    and "length (fill_lower a N) = length a"
proof -
  have n: "N - 1 \<le> N" by simp
  note inv = mirror_rows_inv [OF cells_ok_row_major [OF assms(3)] n]
  have lt: "c < r \<Longrightarrow> c < N - 1" using assms(4) by simp
  show "fill_lower a N ! (2 * (r * N + c)) =
           (if c < r then a ! (2 * (c * N + r)) else a ! (2 * (r * N + c)))"
    using inv assms lt by (auto simp: fill_lower_mirror)
  show "fill_lower a N ! (2 * (r * N + c) + 1) =
           (if c < r then a ! (2 * (c * N + r) + 1) else a ! (2 * (r * N + c) + 1))"
    using inv assms lt by (auto simp: fill_lower_mirror)
  show "length (fill_lower a N) = length a"
    using inv assms by (simp add: fill_lower_mirror)
qed

lemma fill_upper_cells:
  assumes "0 < N" "N < 2 ^ 64" "2 * N * N \<le> length a" "r < N" "c < N"
  shows "fill_upper a N ! (2 * (r * N + c)) =
           (if r < c then a ! (2 * (c * N + r)) else a ! (2 * (r * N + c)))"
    and "fill_upper a N ! (2 * (r * N + c) + 1) =
           (if r < c then a ! (2 * (c * N + r) + 1) else a ! (2 * (r * N + c) + 1))"
    and "length (fill_upper a N) = length a"
proof -
  have n: "N - 1 \<le> N" by simp
  note inv = mirror_rows_inv [OF cells_ok_col_major [OF assms(3)] n]
  have lt: "r < c \<Longrightarrow> r < N - 1" using assms(5) by simp
  show "fill_upper a N ! (2 * (r * N + c)) =
           (if r < c then a ! (2 * (c * N + r)) else a ! (2 * (r * N + c)))"
    using inv [THEN conjunct2, rule_format, OF assms(5) assms(4)] assms lt
    by (auto simp: fill_upper_mirror)
  show "fill_upper a N ! (2 * (r * N + c) + 1) =
           (if r < c then a ! (2 * (c * N + r) + 1) else a ! (2 * (r * N + c) + 1))"
    using inv [THEN conjunct2, rule_format, OF assms(5) assms(4)] assms lt
    by (auto simp: fill_upper_mirror)
  show "length (fill_upper a N) = length a"
    using inv assms by (simp add: fill_upper_mirror)
qed

lemma swap21_12_nth:
  "6 \<le> length v \<Longrightarrow>
   swap21_12 v ! k =
     (if k = 2 then v ! 4 else if k = 4 then v ! 2
      else if k = 3 then v ! 5 else if k = 5 then v ! 3 else v ! k)"
  by (simp add: swap21_12_def Let_def nth_list_update)

lemma swap21_12_cells:
  assumes "8 \<le> length v" "i < 2" "j < 2"
  shows "cell (swap21_12 v) 2 i j = (if i = j then cell v 2 i j else cell v 2 j i)"
proof -
  have l: "6 \<le> length v" using assms(1) by simp
  have "i = 0 \<or> i = 1" "j = 0 \<or> j = 1" using assms by auto
  then show ?thesis
    by (auto simp: cell_def swap21_12_nth [OF l] eval_nat_numeral)
qed

lemma fill_lower_cell:
  assumes "0 < N" "N < 2 ^ 64" "2 * N * N \<le> length a" "i < N" "j < N"
  shows "cell (fill_lower a N) N i j = (if j < i then cell a N j i else cell a N i j)"
  using fill_lower_cells(1,2) [OF assms] by (simp add: cell_def)

lemma fill_upper_cell:
  assumes "0 < N" "N < 2 ^ 64" "2 * N * N \<le> length a" "i < N" "j < N"
  shows "cell (fill_upper a N) N i j = (if i < j then cell a N j i else cell a N i j)"
  using fill_upper_cells(1,2) [OF assms] by (simp add: cell_def)

lemma convert_matrix_symmetric:
  assumes cm: "convert_matrix inc ptr = Some p"
    and mf: "matrix_format inc \<noteq> MF_FULL"
    and N: "0 < num_ports inc" "num_ports inc < 2 ^ 64"
    and ij: "i < num_ports inc" "j < num_ports inc"
  shows "cell p (num_ports inc) i j = cell p (num_ports inc) j i"
proof -
  let ?N = "num_ports inc"
  let ?p1 = "conv_len ptr (number_conv (number_format inc)) (num_vals_per_set inc div 2)"
  let ?p2 = "if matrix_format inc = MF_UPPER then fill_lower ?p1 ?N else fill_upper ?p1 ?N"
  from cm mf have len: "2 * ?N * ?N \<le> length ?p1"
    by (auto simp: convert_matrix_def Let_def split: if_splits)
  have mf': "matrix_format inc = MF_UPPER \<or> matrix_format inc = MF_LOWER"
    using mf by (cases "matrix_format inc") auto
  have sym2: "cell ?p2 ?N r c = cell ?p2 ?N c r" if "r < ?N" "c < ?N" for r c
    using fill_lower_cell [OF N len that] fill_lower_cell [OF N len that(2) that(1)]
          fill_upper_cell [OF N len that] fill_upper_cell [OF N len that(2) that(1)]
    by (cases "r < c"; cases "c < r") auto
  have len2: "length ?p2 = length ?p1"
    using fill_lower_cells(3) [OF N len ij] fill_upper_cells(3) [OF N len ij] by simp
  show ?thesis
  proof (cases "?N = 2 \<and> two_port_data_order inc = TP_ORDER_21_12")
    case False
    then have "p = ?p2" using cm mf mf'
      by (auto simp: convert_matrix_def Let_def split: if_splits)
    then show ?thesis using sym2 [OF ij] by simp
  next
    case True
    then have p: "p = swap21_12 ?p2" using cm mf mf'
      by (auto simp: convert_matrix_def Let_def split: if_splits)
    have l8: "8 \<le> length ?p2" using len len2 True by simp
    have ij2: "i < 2" "j < 2" using ij True by auto
    show ?thesis
      using swap21_12_cells [OF l8 ij2] swap21_12_cells [OF l8 ij2(2) ij2(1)]
            sym2 [OF ij] True
      by (auto simp: p)
  qed
qed

lemma prepare_sweep_mem_frame:
  "prepare_sweep_mem inc = (SR_OK, inc1) \<Longrightarrow>
   state inc1 = state inc \<and> num_ports inc1 = num_ports inc \<and>
   matrix_format inc1 = matrix_format inc \<and> two_port_data_order inc1 = two_port_data_order inc \<and>
   num_vals_per_set inc1 = num_vals_per_set inc \<and> number_format inc1 = number_format inc \<and>
   sweep_count inc1 = sweep_count inc \<and> frequency_unit inc1 = frequency_unit inc \<and>
   session inc1 = session inc \<and> data_set inc1 = data_set inc \<and>
   file_version inc1 = file_version inc \<and> data_set_count inc1 = data_set_count inc"
  by (auto simp: prepare_sweep_mem_def Let_def split: if_splits option.splits prod.splits)

lemma move_data_to_sweep_block:
  assumes "move_data_to_sweep inc = (SR_OK, inc')" "state inc = PS_DATA_LINES"
  shows "\<exists>inc2 ptr. convert_matrix inc2 ptr = Some (drop (wrap64 (sweep_count inc * data_set_entries inc)) (sweep_data inc')) \<and>
           num_ports inc2 = num_ports inc \<and> matrix_format inc2 = matrix_format inc \<and>
           two_port_data_order inc2 = two_port_data_order inc \<and> 0 < num_ports inc"
proof -
  from assms(1) obtain ds where ds: "data_set inc = Some ds" "ds \<noteq> []" "num_ports inc \<noteq> 0"
    by (auto simp: move_data_to_sweep_def split: option.splits if_splits)
  from assms(1) ds obtain inc1 where p: "prepare_sweep_mem inc = (SR_OK, inc1)"
    by (auto simp: move_data_to_sweep_def split: prod.splits if_splits)
  note fr = prepare_sweep_mem_frame [OF p]
  define inc2 where "inc2 = inc1\<lparr>sweep_freq := (sweep_freq inc1)
        [sweep_count inc1 := ds ! 0 * frequency_unit inc1], last_freq := ds ! 0\<rparr>"
  define off where "off = wrap64 (sweep_count inc * data_set_entries inc)"
  have st2: "state inc2 = PS_DATA_LINES" using fr assms(2) by (simp add: inc2_def)
  from assms(1) ds p st2 obtain q where
    q: "Option.bind (move_matrix inc2 ds (drop off (sweep_data inc2))) (convert_matrix inc2) = Some q"
    and lo: "off \<le> length (sweep_data inc2)"
    and r: "sweep_data inc' = take off (sweep_data inc2) @ q"
    using fr
    by (auto simp: move_data_to_sweep_def Let_def inc2_def off_def split: if_splits option.splits)
  from q obtain p0 where p0: "convert_matrix inc2 p0 = Some q"
    by (auto simp: bind_eq_Some_conv)
  have "drop off (sweep_data inc') = q" using r lo by simp
  then show ?thesis using p0 fr ds(3) by (auto simp: inc2_def off_def intro!: exI)
qed

text \<open>
  Claim C5. In a block of doubles that holds an \<open>N \<times> N\<close> matrix of complex pairs,
  \<^verbatim>\<open>fill_lower\<close> leaves the diagonal and the upper triangle as they are and sets every pair
  below the diagonal to the pair at the transposed place, and \<^verbatim>\<open>fill_upper\<close> does the same
  with the triangles exchanged. When \<^verbatim>\<open>move_data_to_sweep\<close> stores a sweep point of a payload
  in UPPER or LOWER format, the block it leaves in \<^verbatim>\<open>sweep_data\<close> (after the conversion, the
  mirroring and the exchange of the two-port order) has equal pairs at \<open>(i, j)\<close> and \<open>(j, i)\<close>
  for all \<open>i, j < N\<close>.
\<close>

theorem mirrored_matrix_symmetric:
  "(0 < N \<and> N < 2 ^ 64 \<and> 2 * N * N \<le> length a \<longrightarrow>
      (\<forall>i<N. \<forall>j<N. cell (fill_lower a N) N i j = (if j < i then cell a N j i else cell a N i j)) \<and>
      (\<forall>i<N. \<forall>j<N. cell (fill_upper a N) N i j = (if i < j then cell a N j i else cell a N i j))) \<and>
   (state inc = PS_DATA_LINES \<and> matrix_format inc \<noteq> MF_FULL \<and> num_ports inc < 2 ^ 64 \<and>
    move_data_to_sweep inc = (SR_OK, inc') \<longrightarrow>
      (\<forall>i<num_ports inc. \<forall>j<num_ports inc.
         cell (drop (wrap64 (sweep_count inc * data_set_entries inc)) (sweep_data inc')) (num_ports inc) i j =
         cell (drop (wrap64 (sweep_count inc * data_set_entries inc)) (sweep_data inc')) (num_ports inc) j i))"
proof (intro conjI impI allI)
  fix i j assume "0 < N \<and> N < 2 ^ 64 \<and> 2 * N * N \<le> length a" "i < N" "j < N"
  then show "cell (fill_lower a N) N i j = (if j < i then cell a N j i else cell a N i j)"
    using fill_lower_cell by blast
next
  fix i j assume "0 < N \<and> N < 2 ^ 64 \<and> 2 * N * N \<le> length a" "i < N" "j < N"
  then show "cell (fill_upper a N) N i j = (if i < j then cell a N j i else cell a N i j)"
    using fill_upper_cell by blast
next
  fix i j
  assume h: "state inc = PS_DATA_LINES \<and> matrix_format inc \<noteq> MF_FULL \<and> num_ports inc < 2 ^ 64 \<and>
    move_data_to_sweep inc = (SR_OK, inc')" and ij: "i < num_ports inc" "j < num_ports inc"
  from move_data_to_sweep_block [of inc inc'] h obtain inc2 ptr where
    c: "convert_matrix inc2 ptr = Some (drop (wrap64 (sweep_count inc * data_set_entries inc)) (sweep_data inc'))"
    and e: "num_ports inc2 = num_ports inc" "matrix_format inc2 = matrix_format inc" "0 < num_ports inc"
    by blast
  show "cell (drop (wrap64 (sweep_count inc * data_set_entries inc)) (sweep_data inc')) (num_ports inc) i j =
        cell (drop (wrap64 (sweep_count inc * data_set_entries inc)) (sweep_data inc')) (num_ports inc) j i"
    using convert_matrix_symmetric [OF c, of i j] h e ij by simp
qed

theorem mirrored_matrix_symmetric_witness:
  "cell (fill_lower [1, 2, 3, 4, 5, 6, 7, 8] 2) 2 1 0 = (3, 4) \<and>
   cell (fill_upper [1, 2, 3, 4, 5, 6, 7, 8] 2) 2 0 1 = (5, 6) \<and>
   cell (sweep_data (snd (move_data_to_sweep upper_row_loaded))) 2 1 0 = (2, pi) \<and>
   cell (sweep_data (snd (move_data_to_sweep upper_row_loaded))) 2 0 1 = (2, pi)"
proof -
  let ?a = "[1, 2, 3, 4, 5, 6, 7, 8] :: double list"
  let ?inc' = "snd (move_data_to_sweep upper_row_loaded)"
  note T = mirrored_matrix_symmetric [of 2 ?a upper_row_loaded ?inc']
  have h1: "0 < (2::nat) \<and> (2::nat) < 2 ^ 64 \<and> 2 * 2 * 2 \<le> length ?a" by simp
  have h2: "state upper_row_loaded = PS_DATA_LINES \<and> matrix_format upper_row_loaded \<noteq> MF_FULL \<and>
            num_ports upper_row_loaded < 2 ^ 64 \<and>
            move_data_to_sweep upper_row_loaded = (SR_OK, ?inc')"
    by (simp add: move_upper_row) (simp add: upper_row_loaded_def after_header_def)
  have np: "num_ports upper_row_loaded = 2"
    by (simp add: upper_row_loaded_def after_header_def)
  have off: "wrap64 (sweep_count upper_row_loaded * data_set_entries upper_row_loaded) = 0"
    by (simp add: upper_row_loaded_def after_header_def wrap64_def)
  from T h1 have lo: "cell (fill_lower ?a 2) 2 1 0 = (if (0::nat) < 1 then cell ?a 2 0 1 else cell ?a 2 1 0)"
    by simp
  from T h1 have up: "cell (fill_upper ?a 2) 2 0 1 = (if (0::nat) < 1 then cell ?a 2 1 0 else cell ?a 2 0 1)"
    by simp
  from T h2 have sy: "cell (sweep_data ?inc') 2 1 0 = cell (sweep_data ?inc') 2 0 1"
    by (simp add: np off)
  have v: "cell (sweep_data ?inc') 2 0 1 = (2, pi)"
    by (simp add: move_upper_row cell_def)
  show ?thesis using lo up sy v by (simp add: cell_def)
qed

text \<open>
  Claim C2. The conversion of \<^verbatim>\<open>move_data_to_sweep\<close> runs over the first
  \<^verbatim>\<open>num_vals_per_set/2\<close> pairs of the block, not over the pairs that were copied. For a
  two-port with the upper triangle stored these are the cells \<open>(0,0)\<close>, \<open>(0,1)\<close> and the
  cell \<open>(1,0)\<close> that holds no input; the diagonal entry \<open>(1,1)\<close> is emitted as it was read.
  The input below is in magnitude and angle with all angles 180 degrees: three of the four
  emitted angles are \<open>pi\<close>, the angle of \<open>(1,1)\<close> is still 180.
\<close>

theorem upper_matrix_diagonal_not_converted:
  "run (\<lambda>n. 0) [two_port_upper_header @ ''1 1 180 1 180 1 180\<newline>[End]\<newline>'', ''''] =
     (SR_OK,
      \<lparr>buf = [], sdi_ready = True,
       priv = (after_header 2 7 1 MF_UPPER)
         \<lparr>last_freq := 1,
          data_set := Some ([1, 1, 180, 1, 180, 1, 180] @ replicate 505 0),
          data_set_size := 512,
          sweep_freq := [1], sweep_data := [1, pi, 1, pi, 1, pi, 1, 180], sweep_size := 1,
          session := [SR_DF_HEADER, SR_DF_FRAME_BEGIN,
                      SR_DF_ANALOG SR_MQ_FREQUENCY SR_UNIT_HERTZ SR_MQFLAG_NONE [1],
                      SR_DF_ANALOG SR_MQ_N_PORT_PARAMETER SR_UNIT_UNITLESS
                        (SR_MQFLAG_KIND KIND_SCATTERING_PARAMETERS)
                        [1, pi, 1, pi, 1, pi, 1, 180],
                      SR_DF_FRAME_END, SR_DF_END]\<rparr>\<rparr>)"
  by (simp add: eval_defs del: upt_rec_numeral)

section \<open>Keyword and option lines\<close>

text \<open>
  Claim C10. In every parser state other than \<open>PS_START_FILE\<close> and \<open>PS_OPTION_LINE\<close> a
  line whose first character is \<open>#\<close> is ignored: \<^verbatim>\<open>process_line\<close> returns \<open>SR_OK\<close> and the
  context, the session trace included, is the one it was given.
\<close>

theorem option_line_ignored_after_first:
  "state inc \<noteq> PS_START_FILE \<Longrightarrow> state inc \<noteq> PS_OPTION_LINE \<Longrightarrow> char0 line = CHR ''#'' \<Longrightarrow>
   process_line inc line = (SR_OK, inc)"
  by (simp add: process_line_def)

theorem option_line_ignored_after_first_witness:
  "process_line ((init (\<lambda>n. 0))\<lparr>state := PS_DATA_LINES, file_version := 1, frequency_unit := 1\<rparr>) ''# MHZ Y RI R 75''
     = (SR_OK, (init (\<lambda>n. 0))\<lparr>state := PS_DATA_LINES, file_version := 1, frequency_unit := 1\<rparr>)"
  using option_line_ignored_after_first
    [of "(init (\<lambda>n. 0))\<lparr>state := PS_DATA_LINES, file_version := 1, frequency_unit := 1\<rparr>" "''# MHZ Y RI R 75''"]
  by (simp add: char0_def)

lemma chug_prefix_iff:
  assumes "p \<noteq> []" "\<not> g_ascii_isspace (hd p)"
  shows "g_str_has_prefix (g_strchug arg) p \<longleftrightarrow>
         (\<exists>ws rest. arg = ws @ p @ rest \<and> (\<forall>c\<in>set ws. g_ascii_isspace c))"
proof
  assume h: "g_str_has_prefix (g_strchug arg) p"
  have "arg = takeWhile g_ascii_isspace arg @ dropWhile g_ascii_isspace arg" by simp
  moreover have "dropWhile g_ascii_isspace arg = p @ drop (length p) (dropWhile g_ascii_isspace arg)"
    using h by (metis append_take_drop_id g_str_has_prefix_def g_strchug_def)
  moreover have "\<forall>c\<in>set (takeWhile g_ascii_isspace arg). g_ascii_isspace c"
    by (auto dest: set_takeWhileD)
  ultimately show "\<exists>ws rest. arg = ws @ p @ rest \<and> (\<forall>c\<in>set ws. g_ascii_isspace c)"
    by metis
next
  assume "\<exists>ws rest. arg = ws @ p @ rest \<and> (\<forall>c\<in>set ws. g_ascii_isspace c)"
  then obtain ws rest where a: "arg = ws @ p @ rest" and w: "\<forall>c\<in>set ws. g_ascii_isspace c"
    by blast
  obtain c cs where p: "p = c # cs" using assms(1) by (cases p) auto
  have "dropWhile g_ascii_isspace arg = p @ rest"
    using a w assms(2) p by (simp add: dropWhile_append2)
  then show "g_str_has_prefix (g_strchug arg) p"
    by (simp add: g_str_has_prefix_def g_strchug_def)
qed

text \<open>
  Claim C8, as amended. A \<^verbatim>\<open>[VERSION]\<close> line sets \<open>file_version\<close> to 2 and succeeds exactly
  when its argument, after leading white space, starts with \<open>2.0\<close>; any text may follow.
  Otherwise the line fails with \<open>SR_ERR\<close> and the context is unchanged.
\<close>

theorem version_line_accepts_prefix_2_0:
  "parse_version_line inc (''[VERSION]'' @ arg) =
     (if (\<exists>ws rest. arg = ws @ ''2.0'' @ rest \<and> (\<forall>c\<in>set ws. g_ascii_isspace c))
      then (SR_OK, inc\<lparr>file_version := 2\<rparr>)
      else (SR_ERR, inc))"
proof -
  have pre: "g_str_has_prefix (''[VERSION]'' @ arg) ''[VERSION]''"
    by (simp add: g_str_has_prefix_def)
  have "\<not> g_ascii_isspace (hd ''2.0'')" by (simp add: g_ascii_isspace_def)
  then have iff: "g_str_has_prefix (g_strchug arg) ''2.0'' \<longleftrightarrow>
      (\<exists>ws rest. arg = ws @ ''2.0'' @ rest \<and> (\<forall>c\<in>set ws. g_ascii_isspace c))"
    using chug_prefix_iff [of "''2.0''" arg] by simp
  show ?thesis
    unfolding parse_version_line_def Let_def using pre iff by simp
qed

theorem version_line_accepts_prefix_2_0_witness:
  "parse_version_line (init (\<lambda>n. 0)) ''[VERSION] 2.0'' = (SR_OK, (init (\<lambda>n. 0))\<lparr>file_version := 2\<rparr>) \<and>
   parse_version_line (init (\<lambda>n. 0)) ''[VERSION] 1.0'' = (SR_ERR, init (\<lambda>n. 0))"
proof -
  have a: "\<exists>ws rest. '' 2.0'' = ws @ ''2.0'' @ rest \<and> (\<forall>c\<in>set ws. g_ascii_isspace c)"
    by (rule exI [of _ "'' ''"], rule exI [of _ "''''"]) (simp add: g_ascii_isspace_def)
  have b: "\<not> (\<exists>ws rest. '' 1.0'' = ws @ ''2.0'' @ rest \<and> (\<forall>c\<in>set ws. g_ascii_isspace c))"
  proof
    assume "\<exists>ws rest. '' 1.0'' = ws @ ''2.0'' @ rest \<and> (\<forall>c\<in>set ws. g_ascii_isspace c)"
    then obtain ws rest where e: "'' 1.0'' = ws @ ''2.0'' @ rest" by blast
    then have "CHR ''2'' \<in> set '' 1.0''" by (metis in_set_conv_decomp append_Cons)
    then show False by simp
  qed
  show ?thesis
    using version_line_accepts_prefix_2_0 [of "init (\<lambda>n. 0)" "'' 2.0''"]
          version_line_accepts_prefix_2_0 [of "init (\<lambda>n. 0)" "'' 1.0''"] a b
    by simp
qed

text \<open>
  The version string \<open>2.01\<close> is not \<open>2.0\<close>, and the first line \<^verbatim>\<open>[VERSION] 2.01\<close> is
  accepted as version 2.
\<close>

theorem version_2_01_accepted:
  "process_line (init (\<lambda>n. 0)) ''[VERSION] 2.01'' =
     (SR_OK, (init (\<lambda>n. 0))\<lparr>state := PS_OPTION_LINE, file_version := 2\<rparr>)"
  by (simp add: process_line_def parse_version_line_def init_def char0_def
      g_str_has_prefix_def g_strchug_def g_ascii_isspace_def Let_def)



section \<open>Data lines\<close>

lemma g_malloc_length: "g_malloc inc n = Some a \<Longrightarrow> length a = wrap64 (8 * n) div 8"
  by (auto simp: g_malloc_def Let_def split: if_splits)

lemma add_data_to_set_ok:
  assumes "add_data_to_set inc vals = (SR_OK, inc2)"
  shows "data_set_count inc2 = (if data_set inc = None then 0 else data_set_count inc) + length vals \<and>
         (\<exists>ds. data_set inc2 = Some ds \<and> data_set_count inc2 \<le> length ds \<and>
            take (length vals) (drop (if data_set inc = None then 0 else data_set_count inc) ds) = vals) \<and>
         file_version inc2 = file_version inc \<and> state inc2 = state inc \<and>
         sweep_count inc2 = sweep_count inc \<and> last_freq inc2 = last_freq inc \<and>
         session inc2 = session inc \<and> sweep_size inc2 = sweep_size inc \<and>
         num_ports inc2 = num_ports inc \<and> frequency_unit inc2 = frequency_unit inc \<and>
         num_vals_per_set inc2 = num_vals_per_set inc \<and> sweep_freq inc2 = sweep_freq inc \<and>
         sweep_data inc2 = sweep_data inc \<and> parameter_kind inc2 = parameter_kind inc"
  using assms
  by (auto simp: add_data_to_set_def prepare_data_set_memory_def memcpy_def Let_def sr_err_def
      split: if_splits option.splits prod.splits)

lemma move_data_to_sweep_ok:
  assumes "move_data_to_sweep inc = (SR_OK, inc')"
  shows "state inc' = state inc \<and> num_vals_per_set inc' = num_vals_per_set inc \<and>
         num_ports inc' = num_ports inc \<and> file_version inc' = file_version inc \<and>
         session inc' = session inc \<and> frequency_unit inc' = frequency_unit inc \<and>
         data_set_count inc' = 0 \<and> sweep_count inc' = sweep_count inc + 1 \<and>
         sweep_count inc < length (sweep_freq inc') \<and>
         num_ports inc \<noteq> 0 \<and>
         (\<exists>f rest. data_set inc = Some (f # rest) \<and> last_freq inc' = f \<and>
            sweep_freq inc' ! sweep_count inc = f * frequency_unit inc)"
proof -
  from assms obtain ds where ds: "data_set inc = Some ds" "ds \<noteq> []" "num_ports inc \<noteq> 0"
    by (auto simp: move_data_to_sweep_def split: option.splits if_splits)
  then obtain f rest where fr: "ds = f # rest" by (cases ds) auto
  from assms ds obtain inc1 where p: "prepare_sweep_mem inc = (SR_OK, inc1)"
    by (auto simp: move_data_to_sweep_def split: prod.splits if_splits)
  note fr1 = prepare_sweep_mem_frame [OF p]
  from assms ds p have lt: "sweep_count inc1 < length (sweep_freq inc1)"
    by (auto simp: move_data_to_sweep_def split: if_splits)
  show ?thesis
    using assms ds p fr1 lt fr
    by (auto simp: move_data_to_sweep_def Let_def split: if_splits option.splits)
qed

lemma parse_data_line_steps:
  assumes "parse_data_line_numbers line = (SR_OK, vals)" "vals \<noteq> []"
  shows "parse_data_line inc line =
           (case infer_ports inc vals of
              (r1, inc1) \<Rightarrow>
                (if r1 \<noteq> SR_OK then (r1, inc1)
                 else (case add_data_to_set inc1 vals of
                         (r2, inc2) \<Rightarrow>
                           (if r2 \<noteq> SR_OK then (r2, inc2)
                            else (case detect_noise_start inc2 of
                                    (r3, inc3) \<Rightarrow>
                                      (if r3 \<noteq> SR_OK then (r3, inc3)
                                       else complete_data_set inc3))))))"
proof -
  define s1 where "s1 = infer_ports inc vals"
  obtain r1 inc1 where s1: "s1 = (r1, inc1)" by (cases s1)
  have e: "(if num_ports inc = 0 \<and> file_version inc = 1 \<and>
                       data_set_count inc \<noteq> 0 \<and> length vals mod 2 \<noteq> 0
                    then (case calc_num_ports inc of
                            (ra, ia) \<Rightarrow>
                              (if ra \<noteq> SR_OK then (ra, ia)
                               else (case send_reference_information ia of
                                       (rb, ib) \<Rightarrow>
                                         (if rb \<noteq> SR_OK then (rb, ib)
                                          else move_data_to_sweep ib))))
                    else (SR_OK, inc)) = (r1, inc1)"
    using s1 unfolding s1_def infer_ports_def infers_ports_def .
  show ?thesis
    unfolding parse_data_line_def assms(1) prod.case e s1_def [symmetric] s1
    using assms(2)
    by (auto simp: detect_noise_start_def complete_data_set_def Let_def split: prod.splits)
qed

lemma pending_length:
  "data_set inc = Some ds \<Longrightarrow> data_set_count inc \<le> length ds \<Longrightarrow>
   length (pending inc) = data_set_count inc"
  by (simp add: pending_def)

lemma add_data_to_set_pending:
  assumes "add_data_to_set inc vals = (SR_OK, inc2)"
  shows "pending inc2 = pending inc @ vals \<and>
         data_set_count inc2 = length (pending inc) + length vals \<and>
         (\<exists>ds. data_set inc2 = Some ds \<and> data_set_count inc2 \<le> length ds)"
  using assms
  by (auto simp: add_data_to_set_def prepare_data_set_memory_def memcpy_def Let_def sr_err_def
      pending_def min_def
      split: if_splits option.splits prod.splits)

lemma send_reference_information_frame:
  assumes "send_reference_information inc = (SR_OK, inc1)"
  shows "file_version inc1 = file_version inc \<and> state inc1 = state inc \<and>
         sweep_count inc1 = sweep_count inc \<and> data_set inc1 = data_set inc \<and>
         data_set_count inc1 = data_set_count inc \<and> frequency_unit inc1 = frequency_unit inc \<and>
         num_ports inc1 = num_ports inc \<and> num_vals_per_set inc1 = num_vals_per_set inc"
  using assms
  by (auto simp: send_reference_information_def Let_def sr_session_send_def
      split: option.splits if_splits)

lemma infer_ports_ok:
  assumes "infer_ports inc vals = (SR_OK, inc1)"
  shows "file_version inc1 = file_version inc \<and> state inc1 = state inc \<and>
         frequency_unit inc1 = frequency_unit inc \<and>
         (\<not> infers_ports inc vals \<longrightarrow> inc1 = inc) \<and>
         (infers_ports inc vals \<longrightarrow>
            sweep_count inc1 = sweep_count inc + 1 \<and> last_freq inc1 = hd (pending inc) \<and>
            pending inc1 = [] \<and> data_set_count inc1 = 0 \<and> num_ports inc1 \<noteq> 0 \<and>
            num_vals_per_set inc1 = data_set_count inc)"
proof (cases "infers_ports inc vals")
  case False
  then show ?thesis using assms by (simp add: infer_ports_def)
next
  case True
  obtain ia where ca: "calc_num_ports inc = (SR_OK, ia)"
    using assms True by (auto simp: infer_ports_def split: prod.splits if_splits)
  obtain ib where sb: "send_reference_information ia = (SR_OK, ib)"
    using assms True ca by (auto simp: infer_ports_def split: prod.splits if_splits)
  have mv: "move_data_to_sweep ib = (SR_OK, inc1)"
    using assms True ca sb by (simp add: infer_ports_def)
  have A: "file_version ia = file_version inc" "state ia = state inc"
    "sweep_count ia = sweep_count inc" "data_set ia = data_set inc"
    "data_set_count ia = data_set_count inc" "frequency_unit ia = frequency_unit inc"
    "num_vals_per_set ia = data_set_count inc"
    using ca by (auto simp: calc_num_ports_def Let_def split: if_splits)
  note B = send_reference_information_frame [OF sb]
  note M = move_data_to_sweep_ok [OF mv]
  from M obtain f rest where fr: "data_set ib = Some (f # rest)" "last_freq inc1 = f" by blast
  have "data_set inc = Some (f # rest)" using fr A B by simp
  moreover have "data_set_count inc \<noteq> 0" using True by (simp add: infers_ports_def)
  ultimately have hp: "hd (pending inc) = f" by (cases "data_set_count inc") (simp_all add: pending_def)
  have p1: "pending inc1 = []" using M by (simp add: pending_def split: option.splits)
  show ?thesis using True A B M fr hp p1 by simp
qed

lemma send_sweep_information_ok:
  assumes "send_sweep_information inc = (r, inc1)" "r \<noteq> UNDEFINED"
  shows "r = SR_OK \<and> inc1 = inc\<lparr>session := session inc @ sweep_packets inc, sweep_count := 0\<rparr>"
  using assms
  by (auto simp: send_sweep_information_def sweep_packets_def sr_session_send_def
      data_set_entries_def Let_def split: if_splits)

lemma start_noise_data_ok:
  assumes "start_noise_data inc = (SR_OK, inc3)"
  shows "inc3 = inc\<lparr>session := session inc @ sweep_packets inc, sweep_count := 0,
                      sweep_size := wrap64 (sweep_size inc * num_ports inc * num_ports inc * 2) div 5,
                      state := PS_NOISE_DATA, num_vals_per_set := 5\<rparr>"
proof -
  obtain r inc1 where s: "send_sweep_information inc = (r, inc1)" by (cases "send_sweep_information inc")
  then have "r \<noteq> UNDEFINED" using assms by (auto simp: start_noise_data_def split: if_splits)
  from send_sweep_information_ok [OF s this] s assms show ?thesis
    by (auto simp: start_noise_data_def)
qed

lemma complete_data_set_ok:
  assumes "complete_data_set inc3 = (SR_OK, inc')"
  shows "state inc' = state inc3 \<and> num_vals_per_set inc' = num_vals_per_set inc3 \<and>
         (num_vals_per_set inc3 = 0 \<or> data_set_count inc3 < num_vals_per_set inc3 \<longrightarrow> inc' = inc3) \<and>
         (num_vals_per_set inc3 \<noteq> 0 \<and> num_vals_per_set inc3 \<le> data_set_count inc3 \<longrightarrow>
            session inc' = session inc3 @
               (if num_vals_per_set inc3 < data_set_count inc3
                then [SR_LOG_WARN ''more data than expected in the last data-set''] else []) \<and>
            data_set_count inc' = 0 \<and> sweep_count inc' = sweep_count inc3 + 1 \<and>
            (\<exists>f rest. data_set inc3 = Some (f # rest) \<and>
               sweep_freq inc' ! sweep_count inc3 = f * frequency_unit inc3) \<and>
            (sweep_size inc3 \<noteq> 0 \<and> sweep_count inc3 \<noteq> sweep_size inc3 \<longrightarrow>
               sweep_size inc' = sweep_size inc3))"
proof (cases "num_vals_per_set inc3 \<noteq> 0 \<and> num_vals_per_set inc3 \<le> data_set_count inc3")
  case False
  then show ?thesis using assms by (auto simp: complete_data_set_def Let_def sr_warn_def split: if_splits)
next
  case True
  define inc4 where "inc4 = (if data_set_count inc3 > num_vals_per_set inc3
                        then sr_warn ''more data than expected in the last data-set'' inc3
                        else inc3)"
  have mv: "move_data_to_sweep inc4 = (SR_OK, inc')"
    using assms True by (auto simp: complete_data_set_def Let_def inc4_def sr_warn_def split: if_splits)
  note m = move_data_to_sweep_ok [OF mv]
  have sz: "sweep_size inc4 \<noteq> 0 \<and> sweep_count inc4 \<noteq> sweep_size inc4 \<longrightarrow> sweep_size inc' = sweep_size inc4"
    using mv
    by (auto simp: move_data_to_sweep_def prepare_sweep_mem_def Let_def
        split: option.splits if_splits prod.splits)
  have f4: "state inc4 = state inc3" "num_vals_per_set inc4 = num_vals_per_set inc3"
    "data_set inc4 = data_set inc3" "sweep_count inc4 = sweep_count inc3"
    "sweep_size inc4 = sweep_size inc3" "frequency_unit inc4 = frequency_unit inc3"
    "session inc4 = session inc3 @
               (if num_vals_per_set inc3 < data_set_count inc3
                then [SR_LOG_WARN ''more data than expected in the last data-set''] else [])"
    by (simp_all add: inc4_def sr_warn_def)
  show ?thesis using m True sz unfolding f4 by auto
qed

lemma detect_noise_start_ok:
  assumes "detect_noise_start inc2 = (SR_OK, inc3)"
  shows "data_set_count inc3 = data_set_count inc2 \<and> data_set inc3 = data_set inc2 \<and>
         frequency_unit inc3 = frequency_unit inc2 \<and>
         ((state inc3 = state inc2 \<and> sweep_count inc3 = sweep_count inc2) \<or>
          (state inc2 = PS_DATA_LINES \<and> state inc3 = PS_NOISE_DATA \<and> sweep_count inc3 = 0))"
proof (cases "file_version inc2 = 1 \<and> state inc2 = PS_DATA_LINES \<and>
         sweep_count inc2 \<noteq> 0 \<and> data_set_count inc2 \<noteq> 0 \<and>
         (case data_set inc2 of Some (f # fs) \<Rightarrow> last_freq inc2 \<ge> f | _ \<Rightarrow> False)")
  case True
  then have "start_noise_data inc2 = (SR_OK, inc3)"
    using assms unfolding detect_noise_start_def by simp
  note S = start_noise_data_ok [OF this]
  show ?thesis using True by (simp add: S)
next
  case False
  then have "inc3 = inc2" using assms unfolding detect_noise_start_def
    by (auto split: if_splits)
  then show ?thesis by simp
qed

lemma hd_pending:
  assumes "data_set inc = Some ds" "data_set_count inc \<le> length ds" "data_set_count inc \<noteq> 0"
  shows "ds \<noteq> []" "hd ds = hd (pending inc)"
proof -
  show "ds \<noteq> []" using assms by auto
  show "hd ds = hd (pending inc)"
    using assms by (cases "data_set_count inc") (simp_all add: pending_def)
qed

lemma noise_start_after_inference:
  assumes v1: "file_version inc1 = 1" and st: "state inc1 = PS_DATA_LINES"
    and a: "add_data_to_set inc1 vals = (SR_OK, inc2)" and ne: "vals \<noteq> []"
    and d: "detect_noise_start inc2 = (SR_OK, inc3)"
    and c: "complete_data_set inc3 = (SR_OK, inc')"
  shows "(state inc' = PS_NOISE_DATA \<longleftrightarrow>
            sweep_count inc1 \<noteq> 0 \<and> hd (pending inc1 @ vals) \<le> last_freq inc1) \<and>
         (state inc' \<noteq> PS_NOISE_DATA \<longrightarrow> state inc' = PS_DATA_LINES) \<and>
         (state inc' = PS_NOISE_DATA \<longrightarrow>
            num_vals_per_set inc' = 5 \<and>
            session inc' = session inc1 @ sweep_packets inc1 @
               (if 5 < length (pending inc1 @ vals)
                then [SR_LOG_WARN ''more data than expected in the last data-set''] else []) \<and>
            (wrap64 (sweep_size inc1 * num_ports inc1 * num_ports inc1 * 2) div 5 \<noteq> 0 \<longrightarrow>
               sweep_size inc' = wrap64 (sweep_size inc1 * num_ports inc1 * num_ports inc1 * 2) div 5) \<and>
            (length (pending inc1 @ vals) < 5 \<longrightarrow>
               sweep_count inc' = 0 \<and> pending inc' = pending inc1 @ vals) \<and>
            (5 \<le> length (pending inc1 @ vals) \<longrightarrow>
               sweep_count inc' = 1 \<and> pending inc' = [] \<and>
               sweep_freq inc' ! 0 = hd (pending inc1 @ vals) * frequency_unit inc1))"
proof -
  define pend where "pend = pending inc1 @ vals"
  note A = add_data_to_set_ok [OF a]
  note P = add_data_to_set_pending [OF a]
  from P obtain ds where ds: "data_set inc2 = Some ds" "data_set_count inc2 \<le> length ds" by blast
  have p2: "pending inc2 = pend" using P by (simp add: pend_def)
  have cnt: "data_set_count inc2 = length pend" using P by (simp add: pend_def)
  have cz: "data_set_count inc2 \<noteq> 0" using cnt ne by (simp add: pend_def)
  note H = hd_pending [OF ds cz]
  obtain f fs where dsf: "ds = f # fs" using H(1) by (cases ds) auto
  have f: "f = hd pend" using H(2) dsf p2 by simp
  have fr: "file_version inc2 = 1" "state inc2 = PS_DATA_LINES"
    "sweep_count inc2 = sweep_count inc1" "last_freq inc2 = last_freq inc1"
    "session inc2 = session inc1" "sweep_size inc2 = sweep_size inc1"
    "num_ports inc2 = num_ports inc1"
    "frequency_unit inc2 = frequency_unit inc1" "sweep_freq inc2 = sweep_freq inc1"
    "sweep_data inc2 = sweep_data inc1" "parameter_kind inc2 = parameter_kind inc1"
    using A v1 st by simp_all
  have sp: "sweep_packets inc2 = sweep_packets inc1"
    by (simp add: sweep_packets_def data_set_entries_def fr st)
  note C = complete_data_set_ok [OF c]
  have ?thesis if F: "\<not> (sweep_count inc1 \<noteq> 0 \<and> hd pend \<le> last_freq inc1)"
  proof -
    have "inc3 = inc2"
      using d F ds(1) dsf f fr cz by (auto simp: detect_noise_start_def)
    then have "state inc' = PS_DATA_LINES" using C fr by simp
    then show ?thesis using F by (simp add: pend_def)
  qed
  moreover have ?thesis if T: "sweep_count inc1 \<noteq> 0 \<and> hd pend \<le> last_freq inc1"
  proof -
    have "start_noise_data inc2 = (SR_OK, inc3)"
      using d T ds(1) dsf f fr cz by (auto simp: detect_noise_start_def)
    note S = start_noise_data_ok [OF this]
    have i3: "state inc3 = PS_NOISE_DATA" "num_vals_per_set inc3 = 5"
      "data_set_count inc3 = length pend" "sweep_count inc3 = 0"
      "session inc3 = session inc1 @ sweep_packets inc1"
      "sweep_size inc3 = wrap64 (sweep_size inc1 * num_ports inc1 * num_ports inc1 * 2) div 5"
      "data_set inc3 = Some ds" "frequency_unit inc3 = frequency_unit inc1"
      "pending inc3 = pend"
      using p2 by (simp_all add: S fr sp cnt ds(1) pending_def)
    show ?thesis
    proof (cases "length pend < 5")
      case lt: True
      then have "inc' = inc3" using C i3 by simp
      then show ?thesis using T i3 lt by (simp add: pend_def)
    next
      case ge: False
      have five: "num_vals_per_set inc3 \<noteq> 0 \<and> num_vals_per_set inc3 \<le> data_set_count inc3"
        using ge i3 by simp
      from C five obtain f' rest where
        c1: "session inc' = session inc3 @
               (if num_vals_per_set inc3 < data_set_count inc3
                then [SR_LOG_WARN ''more data than expected in the last data-set''] else [])"
        and c2: "data_set_count inc' = 0" "sweep_count inc' = sweep_count inc3 + 1"
        and c3: "data_set inc3 = Some (f' # rest)"
                "sweep_freq inc' ! sweep_count inc3 = f' * frequency_unit inc3"
        and c4: "sweep_size inc3 \<noteq> 0 \<and> sweep_count inc3 \<noteq> sweep_size inc3 \<longrightarrow>
               sweep_size inc' = sweep_size inc3"
        by blast
      have ff: "f' = hd pend" using c3(1) i3(7) dsf f by simp
      have st': "state inc' = PS_NOISE_DATA" "num_vals_per_set inc' = 5" using C i3 by simp_all
      have pe: "pending inc' = []" using c2 by (simp add: pending_def split: option.splits)
      show ?thesis
        using T ge st' c1 c2 c3(2) c4 ff i3 pe by (auto simp: pend_def)
    qed
  qed
  ultimately show ?thesis by blast
qed

text \<open>
  Claim C1, as amended. In version 1, in \<open>PS_DATA_LINES\<close>, an accepted data line moves the
  parser to \<open>PS_NOISE_DATA\<close> exactly when a data set has been completed and the frequency of
  the data set in progress is not above the frequency of the most recently completed one: an
  equal frequency starts the noise section too. The comparison follows the port inference:
  on the line that infers the number of ports the first data set is stored first, its
  frequency becomes \<open>last_freq\<close> and the first value of the line is compared with it;
  on every other line \<open>sweep_count\<close> must not be 0 and the first value of the pending data set
  (the first value of the line when the line starts a data set) is compared with
  \<open>last_freq\<close>. Otherwise the state stays \<open>PS_DATA_LINES\<close>. On the transition the stored sweep is
  sent, \<open>num_vals_per_set\<close> becomes 5, \<open>sweep_size\<close> becomes \<open>sweep_size * N * N * 2 / 5\<close> (when
  that is not 0), and the new frequency belongs to the noise section: it heads the pending
  data set, or the first stored noise point when five values are there.
\<close>

theorem noise_start_on_frequency_not_above_last:
  assumes v1: "file_version inc = 1" and st: "state inc = PS_DATA_LINES"
    and toks: "parse_data_line_numbers line = (SR_OK, vals)"
    and ok: "parse_data_line inc line = (SR_OK, inc')"
  shows "(state inc' = PS_NOISE_DATA \<longleftrightarrow>
            vals \<noteq> [] \<and>
            (if infers_ports inc vals then hd vals \<le> hd (pending inc)
             else sweep_count inc \<noteq> 0 \<and> hd (pending inc @ vals) \<le> last_freq inc)) \<and>
         (state inc' \<noteq> PS_NOISE_DATA \<longrightarrow> state inc' = PS_DATA_LINES) \<and>
         (infers_ports inc vals \<longrightarrow>
            sweep_count (snd (infer_ports inc vals)) = sweep_count inc + 1 \<and>
            last_freq (snd (infer_ports inc vals)) = hd (pending inc) \<and>
            pending (snd (infer_ports inc vals)) = []) \<and>
         (\<not> infers_ports inc vals \<longrightarrow> snd (infer_ports inc vals) = inc) \<and>
         (state inc' = PS_NOISE_DATA \<longrightarrow>
            num_vals_per_set inc' = 5 \<and>
            session inc' =
              session (snd (infer_ports inc vals)) @ sweep_packets (snd (infer_ports inc vals)) @
               (if 5 < length (pending (snd (infer_ports inc vals)) @ vals)
                then [SR_LOG_WARN ''more data than expected in the last data-set''] else []) \<and>
            (wrap64 (sweep_size (snd (infer_ports inc vals)) * num_ports (snd (infer_ports inc vals)) *
                     num_ports (snd (infer_ports inc vals)) * 2) div 5 \<noteq> 0 \<longrightarrow>
               sweep_size inc' =
                 wrap64 (sweep_size (snd (infer_ports inc vals)) * num_ports (snd (infer_ports inc vals)) *
                         num_ports (snd (infer_ports inc vals)) * 2) div 5) \<and>
            (length (pending (snd (infer_ports inc vals)) @ vals) < 5 \<longrightarrow>
               sweep_count inc' = 0 \<and> pending inc' = pending (snd (infer_ports inc vals)) @ vals) \<and>
            (5 \<le> length (pending (snd (infer_ports inc vals)) @ vals) \<longrightarrow>
               sweep_count inc' = 1 \<and> pending inc' = [] \<and>
               sweep_freq inc' ! 0 =
                 hd (pending (snd (infer_ports inc vals)) @ vals) * frequency_unit inc))"
proof (cases "vals = []")
  case True
  then have "inc' = inc" using toks ok by (simp add: parse_data_line_def)
  moreover have "\<not> infers_ports inc vals" using True by (simp add: infers_ports_def)
  ultimately show ?thesis using True st by (simp add: infer_ports_def)
next
  case ne: False
  note dec = parse_data_line_steps [OF toks ne, of inc]
  obtain r1 inc1 where i: "infer_ports inc vals = (r1, inc1)" by (cases "infer_ports inc vals")
  have r1: "r1 = SR_OK" using ok dec i by (auto split: if_splits)
  obtain r2 inc2 where a: "add_data_to_set inc1 vals = (r2, inc2)"
    by (cases "add_data_to_set inc1 vals")
  have r2: "r2 = SR_OK" using ok dec i r1 a by (auto split: if_splits)
  obtain r3 inc3 where d: "detect_noise_start inc2 = (r3, inc3)"
    by (cases "detect_noise_start inc2")
  have r3: "r3 = SR_OK" using ok dec i r1 a r2 d by (auto split: if_splits)
  have c: "complete_data_set inc3 = (SR_OK, inc')" using ok dec i r1 a r2 d r3 by simp
  note I = infer_ports_ok [OF i [unfolded r1]]
  have v1': "file_version inc1 = 1" and st': "state inc1 = PS_DATA_LINES" using I v1 st by simp_all
  note N = noise_start_after_inference [OF v1' st' a [unfolded r2] ne d [unfolded r3] c]
  have s: "snd (infer_ports inc vals) = inc1" using i by simp
  have fu: "frequency_unit inc1 = frequency_unit inc" using I by simp
  have cmp: "(sweep_count inc1 \<noteq> 0 \<and> hd (pending inc1 @ vals) \<le> last_freq inc1) \<longleftrightarrow>
             (if infers_ports inc vals then hd vals \<le> hd (pending inc)
              else sweep_count inc \<noteq> 0 \<and> hd (pending inc @ vals) \<le> last_freq inc)"
    using I by (cases "infers_ports inc vals") simp_all
  have inf: "infers_ports inc vals \<longrightarrow>
            sweep_count inc1 = sweep_count inc + 1 \<and> last_freq inc1 = hd (pending inc) \<and>
            pending inc1 = []"
    and ninf: "\<not> infers_ports inc vals \<longrightarrow> inc1 = inc"
    using I by simp_all
  show ?thesis unfolding s using N ne inf ninf unfolding cmp fu by blast
qed

lemma copy_row_take:
  "idx + len \<le> n \<Longrightarrow> n \<le> length ds \<Longrightarrow>
   copy_row (take n ds) idx offs len ptr = copy_row ds idx offs len ptr"
  by (simp add: copy_row_def drop_take min_def)

lemma move_rows_fold_take:
  "idx + sum_list (map row_len js) \<le> n \<Longrightarrow> n \<le> length ds \<Longrightarrow>
   fold (\<lambda>i (p, idx). (Option.bind p (copy_row (take n ds) idx (offs i) (row_len i)), idx + row_len i))
     js (p, idx) =
   fold (\<lambda>i (p, idx). (Option.bind p (copy_row ds idx (offs i) (row_len i)), idx + row_len i))
     js (p, idx)"
proof (induction js arbitrary: p idx)
  case Nil
  then show ?case by simp
next
  case (Cons j js)
  have a: "idx + row_len j \<le> n" using Cons.prems(1) by simp
  have c: "copy_row (take n ds) idx (offs j) (row_len j) = copy_row ds idx (offs j) (row_len j)"
    by (rule ext) (rule copy_row_take [OF a Cons.prems(2)])
  have b: "(idx + row_len j) + sum_list (map row_len js) \<le> n" using Cons.prems(1) by simp
  show ?case using Cons.IH [OF b Cons.prems(2)] by (simp add: c)
qed

lemma move_rows_take:
  "1 + sum_list (map row_len [0 ..< N]) \<le> n \<Longrightarrow> n \<le> length ds \<Longrightarrow>
   move_rows (take n ds) N row_len offs ptr = move_rows ds N row_len offs ptr"
  unfolding move_rows_def by (simp only: move_rows_fold_take)

lemma sum_lower_rows: "sum_list (map (\<lambda>i. 2 * (i + 1)) [0 ..< N]) = N * N + N"
  by (induction N) simp_all

lemma sum_upper_rows_aux:
  "k \<le> N \<Longrightarrow> sum_list (map (\<lambda>i. 2 * (N - i)) [0 ..< k]) + k * k = 2 * k * N + k"
  by (induction k) (simp_all add: algebra_simps)

lemma sum_upper_rows: "sum_list (map (\<lambda>i. 2 * (N - i)) [0 ..< N]) = N * N + N"
  using sum_upper_rows_aux [of N N] by simp

lemma wrap64_pred_le: "0 < n \<Longrightarrow> wrap64 (n + 2 ^ 64 - 1) \<le> n - 1"
proof -
  assume a: "0 < n"
  then have "n + 2 ^ 64 - 1 = (n - 1) + 1 * 2 ^ 64" by simp
  then have "wrap64 (n + 2 ^ 64 - 1) = (n - 1) mod 2 ^ 64"
    unfolding wrap64_def by (metis mod_mult_self1)
  then show ?thesis by simp
qed

lemma move_matrix_take:
  assumes "n \<le> length ds" "0 < n" "num_vals_per_set inc = n"
    and "matrix_format inc = MF_FULL \<or> num_ports inc * num_ports inc + num_ports inc + 1 \<le> n"
  shows "move_matrix inc (take n ds) ptr = move_matrix inc ds ptr"
proof (cases "matrix_format inc = MF_FULL")
  case True
  have "1 + wrap64 (n + 2 ^ 64 - 1) \<le> n" using wrap64_pred_le [OF assms(2)] assms(2) by simp
  then show ?thesis using True assms(1,3) by (simp add: move_matrix_def copy_row_take)
next
  case False
  then have b: "num_ports inc * num_ports inc + num_ports inc + 1 \<le> n" using assms(4) by simp
  have u: "1 + sum_list (map (\<lambda>i. 2 * (num_ports inc - i)) [0 ..< num_ports inc]) \<le> n"
    unfolding sum_upper_rows using b by simp
  have l: "1 + sum_list (map (\<lambda>i. 2 * (i + 1)) [0 ..< num_ports inc]) \<le> n"
    unfolding sum_lower_rows using b by simp
  show ?thesis
    unfolding move_matrix_def move_rows_take [OF u assms(1)] move_rows_take [OF l assms(1)]
    using False by simp
qed

lemma move_matrix_cong:
  assumes "matrix_format a = matrix_format b" "num_vals_per_set a = num_vals_per_set b"
    "num_ports a = num_ports b"
  shows "move_matrix a = move_matrix b"
  unfolding move_matrix_def by (simp only: assms)

lemma convert_matrix_cong:
  assumes "matrix_format a = matrix_format b" "num_vals_per_set a = num_vals_per_set b"
    "num_ports a = num_ports b" "number_format a = number_format b"
    "two_port_data_order a = two_port_data_order b"
  shows "convert_matrix a = convert_matrix b"
  unfolding convert_matrix_def by (simp only: assms)

lemma noise_row_take: "4 \<le> n \<Longrightarrow> take n (noise_row ds) = noise_row (take n ds)"
  by (simp add: noise_row_def Let_def take_update_swap)

lemma length_noise_row: "length (noise_row ds) = length ds"
  by (simp add: noise_row_def Let_def)

lemma move_data_to_sweep_payload:
  assumes mv: "move_data_to_sweep inc = (SR_OK, inc')" and ds: "data_set inc = Some ds"
  shows "matrix_format inc' = matrix_format inc \<and> number_format inc' = number_format inc \<and>
         two_port_data_order inc' = two_port_data_order inc \<and>
         (state inc = PS_DATA_LINES \<longrightarrow>
            (\<exists>old. Option.bind (move_matrix inc' ds old) (convert_matrix inc') =
                      Some (drop (wrap64 (sweep_count inc * data_set_entries inc)) (sweep_data inc')))) \<and>
         (state inc \<noteq> PS_DATA_LINES \<longrightarrow>
            (\<exists>old. copy_row (noise_row ds) 1 0 (wrap64 (num_vals_per_set inc + 2 ^ 64 - 1)) old =
                      Some (drop (wrap64 (sweep_count inc * data_set_entries inc)) (sweep_data inc'))))"
proof -
  from mv ds have ne: "ds \<noteq> []" "num_ports inc \<noteq> 0"
    by (auto simp: move_data_to_sweep_def split: option.splits if_splits)
  from mv ds ne obtain inc1 where p: "prepare_sweep_mem inc = (SR_OK, inc1)"
    by (auto simp: move_data_to_sweep_def split: prod.splits if_splits)
  note fr = prepare_sweep_mem_frame [OF p]
  define inc2 where "inc2 = inc1\<lparr>sweep_freq := (sweep_freq inc1)
        [sweep_count inc1 := ds ! 0 * frequency_unit inc1], last_freq := ds ! 0\<rparr>"
  define off where "off = wrap64 (sweep_count inc * data_set_entries inc)"
  have f2: "state inc2 = state inc" "num_ports inc2 = num_ports inc"
    "matrix_format inc2 = matrix_format inc" "two_port_data_order inc2 = two_port_data_order inc"
    "num_vals_per_set inc2 = num_vals_per_set inc" "number_format inc2 = number_format inc"
    "sweep_count inc2 = sweep_count inc"
    using fr by (simp_all add: inc2_def)
  show ?thesis
  proof (cases "state inc = PS_DATA_LINES")
    case True
    from mv ds ne p True f2 obtain q where
      q: "Option.bind (move_matrix inc2 ds (drop off (sweep_data inc2))) (convert_matrix inc2) = Some q"
      and lo: "off \<le> length (sweep_data inc2)"
      and r: "inc' = inc2\<lparr>sweep_data := take off (sweep_data inc2) @ q,
                           sweep_count := sweep_count inc2 + 1, data_set_count := 0\<rparr>"
      using fr
      by (auto simp: move_data_to_sweep_def Let_def inc2_def off_def split: if_splits option.splits)
    have d: "drop off (sweep_data inc') = q" using r lo by simp
    have m: "move_matrix inc' = move_matrix inc2" by (rule move_matrix_cong) (simp_all add: r)
    have c: "convert_matrix inc' = convert_matrix inc2" by (rule convert_matrix_cong) (simp_all add: r)
    show ?thesis using True q d f2 unfolding m c off_def by (auto simp: r)
  next
    case False
    define ds2 where "ds2 = noise_row ds"
    define inc3 where "inc3 = inc2\<lparr>data_set := Some ds2\<rparr>"
    from mv ds ne p False f2 obtain q where
      q: "copy_row ds2 1 0 (wrap64 (num_vals_per_set inc3 + 2 ^ 64 - 1)) (drop off (sweep_data inc2)) = Some q"
      and lo: "off \<le> length (sweep_data inc2)"
      and r: "inc' = inc3\<lparr>sweep_data := take off (sweep_data inc3) @ q,
                           sweep_count := sweep_count inc3 + 1, data_set_count := 0\<rparr>"
      using fr
      by (auto simp: move_data_to_sweep_def Let_def inc2_def inc3_def ds2_def noise_row_def off_def
          split: if_splits option.splits)
    have d: "drop off (sweep_data inc') = q" using r lo by (simp add: inc3_def)
    have n3: "num_vals_per_set inc3 = num_vals_per_set inc" using f2 by (simp add: inc3_def)
    show ?thesis using False q d f2 unfolding n3 off_def ds2_def by (auto simp: r inc3_def)
  qed
qed

text \<open>
  Claim C3, as amended. When a data line leaves more values in the data set than
  \<open>num_vals_per_set\<close>, the warning is logged and the data set is stored as a sweep point from
  its first \<open>num_vals_per_set\<close> values: the frequency is its first value, and the block written
  to \<open>sweep_data\<close> is the one \<^verbatim>\<open>move_data_to_sweep\<close> copies and converts from the data set cut
  after \<open>num_vals_per_set\<close> values (for the formats \<open>UPPER\<close> and \<open>LOWER\<close> when \<open>num_vals_per_set\<close>
  covers the stored triangle; in the noise section when a row has its four values). Then
  \<open>data_set_count\<close> is 0 and the values of the next line are the whole pending data set: the
  excess is discarded. The data set is the one in progress after the port inference, so the
  line that infers the number of ports is covered.
\<close>

theorem excess_tokens_discarded:
  assumes toks: "parse_data_line_numbers line = (SR_OK, vals)" and ne: "vals \<noteq> []"
    and ok: "parse_data_line inc line = (SR_OK, inc')"
    and nz: "num_vals_per_set inc' \<noteq> 0"
    and excess: "num_vals_per_set inc' < length (pending (snd (infer_ports inc vals)) @ vals)"
  shows "(\<exists>before. session inc' =
            before @ [SR_LOG_WARN ''more data than expected in the last data-set'']) \<and>
         data_set_count inc' = 0 \<and>
         sweep_count inc' =
           (if state inc' = state inc then sweep_count (snd (infer_ports inc vals)) else 0) + 1 \<and>
         last_freq inc' = hd (pending (snd (infer_ports inc vals)) @ vals) \<and>
         sweep_freq inc' ! (sweep_count inc' - 1) =
           hd (pending (snd (infer_ports inc vals)) @ vals) * frequency_unit inc \<and>
         (state inc' = PS_DATA_LINES \<longrightarrow>
            (matrix_format inc' = MF_FULL \<or>
             num_ports inc' * num_ports inc' + num_ports inc' + 1 \<le> num_vals_per_set inc') \<longrightarrow>
            (\<exists>old. Option.bind
                      (move_matrix inc'
                         (take (num_vals_per_set inc') (pending (snd (infer_ports inc vals)) @ vals))
                         old)
                      (convert_matrix inc') =
                    Some (drop (wrap64 ((sweep_count inc' - 1) * data_set_entries inc'))
                            (sweep_data inc')))) \<and>
         (state inc' \<noteq> PS_DATA_LINES \<longrightarrow> 4 \<le> num_vals_per_set inc' \<longrightarrow>
            (\<exists>old. copy_row
                      (noise_row
                         (take (num_vals_per_set inc') (pending (snd (infer_ports inc vals)) @ vals)))
                      1 0 (wrap64 (num_vals_per_set inc' + 2 ^ 64 - 1)) old =
                    Some (drop (wrap64 ((sweep_count inc' - 1) * data_set_entries inc'))
                            (sweep_data inc')))) \<and>
         (\<forall>vals2 inc''. add_data_to_set inc' vals2 = (SR_OK, inc'') \<longrightarrow> pending inc'' = vals2)"
proof -
  note dec = parse_data_line_steps [OF toks ne, of inc]
  obtain r1 inc1 where i: "infer_ports inc vals = (r1, inc1)" by (cases "infer_ports inc vals")
  have r1: "r1 = SR_OK" using ok dec i by (auto split: if_splits)
  obtain r2 inc2 where a: "add_data_to_set inc1 vals = (r2, inc2)"
    by (cases "add_data_to_set inc1 vals")
  have r2: "r2 = SR_OK" using ok dec i r1 a by (auto split: if_splits)
  obtain r3 inc3 where d: "detect_noise_start inc2 = (r3, inc3)"
    by (cases "detect_noise_start inc2")
  have r3: "r3 = SR_OK" using ok dec i r1 a r2 d by (auto split: if_splits)
  have c: "complete_data_set inc3 = (SR_OK, inc')" using ok dec i r1 a r2 d r3 by simp
  have s: "snd (infer_ports inc vals) = inc1" using i by simp
  define pend where "pend = pending inc1 @ vals"
  define n where "n = num_vals_per_set inc'"
  note I = infer_ports_ok [OF i [unfolded r1]]
  note A = add_data_to_set_ok [OF a [unfolded r2]]
  note P = add_data_to_set_pending [OF a [unfolded r2]]
  note D = detect_noise_start_ok [OF d [unfolded r3]]
  note C = complete_data_set_ok [OF c]
  from P obtain ds where ds: "data_set inc2 = Some ds" "data_set_count inc2 \<le> length ds" by blast
  have p2: "pending inc2 = pend" using P by (simp add: pend_def)
  have cnt: "data_set_count inc2 = length pend" using P by (simp add: pend_def)
  have cz: "data_set_count inc2 \<noteq> 0" using cnt ne by (simp add: pend_def)
  note H = hd_pending [OF ds cz]
  have pd: "pend = take (length pend) ds" using p2 ds(1) cnt by (simp add: pending_def)
  have n3: "num_vals_per_set inc3 = n" using C by (simp add: n_def)
  have lt: "n < length pend" using excess by (simp add: n_def s pend_def)
  have n0: "0 < n" using nz by (simp add: n_def)
  have c3: "data_set_count inc3 = length pend" "data_set inc3 = Some ds" using D cnt ds by simp_all
  define inc4 where "inc4 = sr_warn ''more data than expected in the last data-set'' inc3"
  have mv: "move_data_to_sweep inc4 = (SR_OK, inc')"
    using c n3 n0 lt c3
    by (simp add: complete_data_set_def Let_def inc4_def sr_warn_def)
  have f4: "state inc4 = state inc3" "num_vals_per_set inc4 = n" "data_set inc4 = Some ds"
    "sweep_count inc4 = sweep_count inc3" "frequency_unit inc4 = frequency_unit inc3"
    "num_ports inc4 = num_ports inc3"
    "session inc4 = session inc3 @ [SR_LOG_WARN ''more data than expected in the last data-set'']"
    by (simp_all add: inc4_def sr_warn_def n3 c3)
  note M = move_data_to_sweep_ok [OF mv]
  note Pl = move_data_to_sweep_payload [OF mv f4(3)]
  from M obtain f rest where fr: "data_set inc4 = Some (f # rest)" "last_freq inc' = f"
    "sweep_freq inc' ! sweep_count inc4 = f * frequency_unit inc4" by blast
  have ff: "f = hd pend" using fr(1) f4(3) H(2) p2 by simp
  have fu: "frequency_unit inc4 = frequency_unit inc" using f4 D A I by simp
  have st': "state inc' = state inc3" using M f4 by simp
  have sc: "sweep_count inc3 = (if state inc' = state inc then sweep_count inc1 else 0)"
    using D A I st' by auto
  have sc': "sweep_count inc' = sweep_count inc3 + 1" using M f4 by simp
  have dse: "data_set_entries inc4 = data_set_entries inc'"
    using M by (simp add: data_set_entries_def)
  have off: "wrap64 (sweep_count inc4 * data_set_entries inc4) =
             wrap64 ((sweep_count inc' - 1) * data_set_entries inc')"
    using sc' f4 dse by simp
  have "length pend = min (length ds) (length pend)" using pd by (metis length_take)
  then have nl: "n \<le> length ds" using lt by simp
  have tk: "take n pend = take n ds"
  proof -
    have "take n pend = take n (take (length pend) ds)" using pd by simp
    also have "\<dots> = take n ds" using lt by (simp add: min_def)
    finally show ?thesis .
  qed
  have nv: "num_vals_per_set inc' = n" by (simp add: n_def)
  have t1: "\<exists>before. session inc' =
            before @ [SR_LOG_WARN ''more data than expected in the last data-set'']"
    using M f4 by simp
  have t2: "data_set_count inc' = 0" using M by simp
  have t3: "sweep_count inc' = (if state inc' = state inc then sweep_count inc1 else 0) + 1"
    using sc sc' by simp
  have t4: "last_freq inc' = hd pend" using fr ff by simp
  have t5: "sweep_freq inc' ! (sweep_count inc' - 1) = hd pend * frequency_unit inc"
    using fr(3) ff fu sc' f4 by simp
  have t6: "state inc' = PS_DATA_LINES \<longrightarrow>
            (matrix_format inc' = MF_FULL \<or>
             num_ports inc' * num_ports inc' + num_ports inc' + 1 \<le> n) \<longrightarrow>
            (\<exists>old. Option.bind (move_matrix inc' (take n pend) old) (convert_matrix inc') =
                    Some (drop (wrap64 ((sweep_count inc' - 1) * data_set_entries inc'))
                            (sweep_data inc')))"
  proof (intro impI)
    assume sd: "state inc' = PS_DATA_LINES"
      and fm: "matrix_format inc' = MF_FULL \<or>
               num_ports inc' * num_ports inc' + num_ports inc' + 1 \<le> n"
    have "state inc4 = PS_DATA_LINES" using sd M by simp
    with Pl obtain old where
      o: "Option.bind (move_matrix inc' ds old) (convert_matrix inc') =
            Some (drop (wrap64 (sweep_count inc4 * data_set_entries inc4)) (sweep_data inc'))"
      by blast
    have "move_matrix inc' (take n ds) old = move_matrix inc' ds old"
      by (rule move_matrix_take [OF nl n0 nv fm])
    then have "Option.bind (move_matrix inc' (take n pend) old) (convert_matrix inc') =
                    Some (drop (wrap64 ((sweep_count inc' - 1) * data_set_entries inc'))
                            (sweep_data inc'))"
      using o unfolding off tk by simp
    then show "\<exists>old. Option.bind (move_matrix inc' (take n pend) old) (convert_matrix inc') =
                    Some (drop (wrap64 ((sweep_count inc' - 1) * data_set_entries inc'))
                            (sweep_data inc'))" ..
  qed
  have t7: "state inc' \<noteq> PS_DATA_LINES \<longrightarrow> 4 \<le> n \<longrightarrow>
            (\<exists>old. copy_row (noise_row (take n pend)) 1 0 (wrap64 (n + 2 ^ 64 - 1)) old =
                    Some (drop (wrap64 ((sweep_count inc' - 1) * data_set_entries inc'))
                            (sweep_data inc')))"
  proof (intro impI)
    assume sd: "state inc' \<noteq> PS_DATA_LINES" and n4: "4 \<le> n"
    have "state inc4 \<noteq> PS_DATA_LINES" using sd M by simp
    with Pl obtain old where
      o: "copy_row (noise_row ds) 1 0 (wrap64 (num_vals_per_set inc4 + 2 ^ 64 - 1)) old =
            Some (drop (wrap64 (sweep_count inc4 * data_set_entries inc4)) (sweep_data inc'))"
      by blast
    have le: "1 + wrap64 (n + 2 ^ 64 - 1) \<le> n" using wrap64_pred_le [OF n0] n0 by simp
    have nl': "n \<le> length (noise_row ds)" using nl by (simp add: length_noise_row)
    have "copy_row (noise_row (take n ds)) 1 0 (wrap64 (n + 2 ^ 64 - 1)) old =
          copy_row (noise_row ds) 1 0 (wrap64 (n + 2 ^ 64 - 1)) old"
      unfolding noise_row_take [OF n4, symmetric] by (rule copy_row_take [OF le nl'])
    then have "copy_row (noise_row (take n pend)) 1 0 (wrap64 (n + 2 ^ 64 - 1)) old =
                    Some (drop (wrap64 ((sweep_count inc' - 1) * data_set_entries inc'))
                            (sweep_data inc'))"
      using o unfolding off tk f4(2) by simp
    then show "\<exists>old. copy_row (noise_row (take n pend)) 1 0 (wrap64 (n + 2 ^ 64 - 1)) old =
                    Some (drop (wrap64 ((sweep_count inc' - 1) * data_set_entries inc'))
                            (sweep_data inc'))" ..
  qed
  have t8: "\<forall>vals2 inc''. add_data_to_set inc' vals2 = (SR_OK, inc'') \<longrightarrow> pending inc'' = vals2"
  proof (intro allI impI)
    fix vals2 inc'' assume "add_data_to_set inc' vals2 = (SR_OK, inc'')"
    from add_data_to_set_pending [OF this] have "pending inc'' = pending inc' @ vals2" by simp
    moreover have "pending inc' = []" using t2 by (simp add: pending_def split: option.splits)
    ultimately show "pending inc'' = vals2" by simp
  qed
  show ?thesis
    unfolding s pend_def [symmetric] n_def [symmetric]
    by (intro conjI t1 t2 t3 t4 t5 t6 t7 t8)
qed

text \<open>
  Claim C9, as amended. An accepted option line leaves \<open>frequency_unit\<close> at 1, \<open>10\<^sup>3\<close>, \<open>10\<^sup>6\<close>
  or \<open>10\<^sup>9\<close>, and \<^verbatim>\<open>move_data_to_sweep\<close> stores \<open>f * frequency_unit\<close> for the first value \<open>f\<close> of
  the data set, whatever its sign: the stored frequency is positive exactly when the token
  is.
\<close>

theorem stored_frequency_is_scaled_token:
  "(parse_option_line inc0 line = (SR_OK, inc1) \<longrightarrow>
      frequency_unit inc1 = 1 \<or> frequency_unit inc1 = 1000 \<or>
      frequency_unit inc1 = 1000000 \<or> frequency_unit inc1 = 1000000000) \<and>
   (move_data_to_sweep inc = (SR_OK, inc') \<longrightarrow>
      (\<exists>f rest. data_set inc = Some (f # rest) \<and>
         sweep_count inc' = sweep_count inc + 1 \<and>
         sweep_freq inc' ! sweep_count inc = f * frequency_unit inc \<and>
         (0 < frequency_unit inc \<longrightarrow> (0 < sweep_freq inc' ! sweep_count inc \<longleftrightarrow> 0 < f))))"
proof (intro conjI impI)
  assume "parse_option_line inc0 line = (SR_OK, inc1)"
  then show "frequency_unit inc1 = 1 \<or> frequency_unit inc1 = 1000 \<or>
      frequency_unit inc1 = 1000000 \<or> frequency_unit inc1 = 1000000000"
    by (auto simp: parse_option_line_def Let_def sr_err_def
        split: option.splits if_splits sum.splits ret.splits)
next
  assume "move_data_to_sweep inc = (SR_OK, inc')"
  from move_data_to_sweep_ok [OF this] obtain f rest where
    m: "data_set inc = Some (f # rest)" "sweep_count inc' = sweep_count inc + 1"
       "sweep_freq inc' ! sweep_count inc = f * frequency_unit inc"
    by blast
  have "0 < frequency_unit inc \<longrightarrow> (0 < f * frequency_unit inc \<longleftrightarrow> 0 < f)"
    by (simp add: zero_less_mult_iff)
  then show "\<exists>f rest. data_set inc = Some (f # rest) \<and>
         sweep_count inc' = sweep_count inc + 1 \<and>
         sweep_freq inc' ! sweep_count inc = f * frequency_unit inc \<and>
         (0 < frequency_unit inc \<longrightarrow> (0 < sweep_freq inc' ! sweep_count inc \<longleftrightarrow> 0 < f))"
    using m by auto
qed

text \<open>
  Nine values on the first data row of a version 1 file are a two-port; eight values are
  refused.
\<close>

theorem port_inference_witness:
  "fst (calc_num_ports (v1_first_row [1, 1, 0, 1, 0, 1, 0, 1, 0])) = SR_OK \<and>
   num_ports (snd (calc_num_ports (v1_first_row [1, 1, 0, 1, 0, 1, 0, 1, 0]))) = 2 \<and>
   fst (calc_num_ports (v1_first_row [1, 1, 0, 1, 0, 1, 0, 1])) = SR_ERR"
proof -
  let ?a = "v1_first_row [1, 1, 0, 1, 0, 1, 0, 1, 0]"
  let ?b = "v1_first_row [1, 1, 0, 1, 0, 1, 0, 1]"
  have ca: "data_set_count ?a = 9" and cb: "data_set_count ?b = 8"
    by (simp_all add: v1_first_row_def)
  have ha: "data_set_count ?a div 2 < 2 ^ 32" and hb: "data_set_count ?b div 2 < 2 ^ 32"
    by (simp_all add: ca cb)
  have k: "\<exists>k. (9::nat) = 2 * k * k + 1" by (rule exI [of _ 2]) simp
  have i4: "isqrt 4 = 2" using isqrt_square [of 2] by simp
  have nb: "2 * (isqrt ((8 - 1) div 2))\<^sup>2 + 1 \<noteq> (8::nat)" by presburger
  show ?thesis
    using port_inference [OF ha] port_inference [OF hb] k i4 nb
    unfolding ca cb by auto
qed

text \<open>
  A version 1 one-port with the rows \<^verbatim>\<open>1 1 0\<close> and \<^verbatim>\<open>2 1 0\<close>, followed by a row with the
  frequency 2 again.
\<close>

lemma row_equal_frequency:
  "parse_data_line one_port_two_points ''2 1 0'' =
     (SR_OK,
      one_port_two_points
        \<lparr>data_set_count := 3, sweep_count := 0, sweep_size := 204,
         state := PS_NOISE_DATA, num_vals_per_set := 5,
         session := [SR_DF_HEADER, SR_DF_FRAME_BEGIN,
                     SR_DF_ANALOG SR_MQ_RESISTANCE SR_UNIT_OHM SR_MQFLAG_REFERENCE [50],
                     SR_DF_ANALOG SR_MQ_FREQUENCY SR_UNIT_HERTZ SR_MQFLAG_NONE [1, 2],
                     SR_DF_ANALOG SR_MQ_N_PORT_PARAMETER SR_UNIT_UNITLESS
                       (SR_MQFLAG_KIND KIND_SCATTERING_PARAMETERS) [1, 0, 1, 0]]\<rparr>)"
  by (simp add: eval2_defs del: upt_rec_numeral)

lemma row_tokens: "parse_data_line_numbers ''2 1 0'' = (SR_OK, [2, 1, 0])"
  by (simp add: eval2_defs del: upt_rec_numeral)

text \<open>
  The line that infers the number of ports: after the row \<^verbatim>\<open>2 1 0\<close>, the row \<^verbatim>\<open>1 1 0\<close>
  stores the first data set and starts the noise section.
\<close>

lemma inference_row_lower:
  "parse_data_line (v1_first_row [2, 1, 0]) ''1 1 0'' =
     (SR_OK,
      (v1_first_row [1, 1, 0])
        \<lparr>last_freq := 2, reference_resistances := Some [50], state := PS_NOISE_DATA,
         num_ports := 1, num_vals_per_set := 5,
         sweep_freq := [2, 0] @ replicate 510 0, sweep_data := [1, 0] @ replicate 1022 0,
         sweep_size := 204,
         session := [SR_DF_HEADER, SR_DF_FRAME_BEGIN,
                     SR_DF_ANALOG SR_MQ_RESISTANCE SR_UNIT_OHM SR_MQFLAG_REFERENCE [50],
                     SR_DF_ANALOG SR_MQ_FREQUENCY SR_UNIT_HERTZ SR_MQFLAG_NONE [2],
                     SR_DF_ANALOG SR_MQ_N_PORT_PARAMETER SR_UNIT_UNITLESS
                       (SR_MQFLAG_KIND KIND_SCATTERING_PARAMETERS) [1, 0]]\<rparr>)"
  by (simp add: eval2_defs del: upt_rec_numeral)

lemma row_tokens_lower: "parse_data_line_numbers ''1 1 0'' = (SR_OK, [1, 1, 0])"
  by (simp add: eval2_defs del: upt_rec_numeral)

lemma row_tokens_higher: "parse_data_line_numbers ''3 1 0'' = (SR_OK, [3, 1, 0])"
  by (simp add: eval2_defs del: upt_rec_numeral)

lemma row_higher_frequency_ok:
  "fst (parse_data_line one_port_two_points ''3 1 0'') = SR_OK"
  by (simp add: eval2_defs del: upt_rec_numeral)

theorem noise_start_on_frequency_not_above_last_witness:
  "state (snd (parse_data_line one_port_two_points ''2 1 0'')) = PS_NOISE_DATA \<and>
   num_vals_per_set (snd (parse_data_line one_port_two_points ''2 1 0'')) = 5 \<and>
   sweep_size (snd (parse_data_line one_port_two_points ''2 1 0'')) = 204 \<and>
   pending (snd (parse_data_line one_port_two_points ''2 1 0'')) = [2, 1, 0] \<and>
   session (snd (parse_data_line one_port_two_points ''2 1 0'')) =
     session one_port_two_points @
       [SR_DF_ANALOG SR_MQ_FREQUENCY SR_UNIT_HERTZ SR_MQFLAG_NONE [1, 2],
        SR_DF_ANALOG SR_MQ_N_PORT_PARAMETER SR_UNIT_UNITLESS
          (SR_MQFLAG_KIND KIND_SCATTERING_PARAMETERS) [1, 0, 1, 0]] \<and>
   state (snd (parse_data_line one_port_two_points ''3 1 0'')) = PS_DATA_LINES \<and>
   state (snd (parse_data_line (v1_first_row [2, 1, 0]) ''1 1 0'')) = PS_NOISE_DATA \<and>
   pending (snd (parse_data_line (v1_first_row [2, 1, 0]) ''1 1 0'')) = [1, 1, 0]"
proof -
  let ?a = "one_port_two_points"
  let ?a' = "snd (parse_data_line one_port_two_points ''2 1 0'')"
  let ?h' = "snd (parse_data_line one_port_two_points ''3 1 0'')"
  let ?b = "v1_first_row [2, 1, 0]"
  let ?b' = "snd (parse_data_line (v1_first_row [2, 1, 0]) ''1 1 0'')"
  have ha: "file_version ?a = 1" "state ?a = PS_DATA_LINES"
    by (simp_all add: one_port_two_points_def v1_first_row_def)
  have hb: "file_version ?b = 1" "state ?b = PS_DATA_LINES"
    by (simp_all add: v1_first_row_def)
  have oka: "parse_data_line ?a ''2 1 0'' = (SR_OK, ?a')"
    by (simp only: row_equal_frequency snd_conv)
  have okh: "parse_data_line ?a ''3 1 0'' = (SR_OK, ?h')"
    using row_higher_frequency_ok by (metis prod.collapse)
  have okb: "parse_data_line ?b ''1 1 0'' = (SR_OK, ?b')"
    by (simp only: inference_row_lower snd_conv)
  note Ta = noise_start_on_frequency_not_above_last [OF ha row_tokens oka]
  note Th = noise_start_on_frequency_not_above_last [OF ha row_tokens_higher okh]
  note Tb = noise_start_on_frequency_not_above_last [OF hb row_tokens_lower okb]
  have ia: "\<not> infers_ports ?a [2, 1, 0]" "\<not> infers_ports ?a [3, 1, 0]"
    by (simp_all add: infers_ports_def one_port_two_points_def v1_first_row_def)
  have ib: "infers_ports ?b [1, 1, 0]"
    by (simp add: infers_ports_def v1_first_row_def)
  have va: "pending ?a = []" "sweep_count ?a \<noteq> 0" "last_freq ?a = 2"
    "wrap64 (sweep_size ?a * num_ports ?a * num_ports ?a * 2) div 5 = 204"
    "sweep_packets ?a =
       [SR_DF_ANALOG SR_MQ_FREQUENCY SR_UNIT_HERTZ SR_MQFLAG_NONE [1, 2],
        SR_DF_ANALOG SR_MQ_N_PORT_PARAMETER SR_UNIT_UNITLESS
          (SR_MQFLAG_KIND KIND_SCATTERING_PARAMETERS) [1, 0, 1, 0]]"
    by (simp_all add: one_port_two_points_def v1_first_row_def wrap64_def sweep_packets_def
        data_set_entries_def pending_def)
  have vb: "hd (pending ?b) = 2"
    by (simp add: v1_first_row_def pending_def)
  have sa: "snd (infer_ports ?a [2, 1, 0]) = ?a" using Ta ia by blast
  have a1: "state ?a' = PS_NOISE_DATA" using Ta ia va by simp
  have a2: "num_vals_per_set ?a' = 5 \<and> sweep_size ?a' = 204 \<and> pending ?a' = [2, 1, 0] \<and>
            session ?a' = session ?a @
              [SR_DF_ANALOG SR_MQ_FREQUENCY SR_UNIT_HERTZ SR_MQFLAG_NONE [1, 2],
               SR_DF_ANALOG SR_MQ_N_PORT_PARAMETER SR_UNIT_UNITLESS
                 (SR_MQFLAG_KIND KIND_SCATTERING_PARAMETERS) [1, 0, 1, 0]]"
    using Ta a1 unfolding sa va by simp
  have h1: "state ?h' = PS_DATA_LINES" using Th ia va by simp
  have b1: "state ?b' = PS_NOISE_DATA" using Tb ib vb by simp
  have pb: "pending (snd (infer_ports ?b [1, 1, 0])) = []" using Tb ib by blast
  have b2: "pending ?b' = [1, 1, 0]" using Tb b1 unfolding pb by simp
  show ?thesis using a1 a2 h1 b1 b2 by blast
qed

text \<open>
  The frequency 2 equals \<open>last_freq\<close>, and the row \<^verbatim>\<open>2 1 0\<close> starts the noise section.
\<close>

theorem equal_frequency_starts_noise:
  "process_line one_port_two_points ''2 1 0'' =
     (SR_OK,
      one_port_two_points
        \<lparr>data_set_count := 3, sweep_count := 0, sweep_size := 204,
         state := PS_NOISE_DATA, num_vals_per_set := 5,
         session := [SR_DF_HEADER, SR_DF_FRAME_BEGIN,
                     SR_DF_ANALOG SR_MQ_RESISTANCE SR_UNIT_OHM SR_MQFLAG_REFERENCE [50],
                     SR_DF_ANALOG SR_MQ_FREQUENCY SR_UNIT_HERTZ SR_MQFLAG_NONE [1, 2],
                     SR_DF_ANALOG SR_MQ_N_PORT_PARAMETER SR_UNIT_UNITLESS
                       (SR_MQFLAG_KIND KIND_SCATTERING_PARAMETERS) [1, 0, 1, 0]]\<rparr>) \<and>
   last_freq one_port_two_points = 2"
  using row_equal_frequency
  by (simp add: process_line_def one_port_two_points_def v1_first_row_def char0_def fwd_to_def
      g_str_has_prefix_def)

text \<open>A version 2 one-port, whose rows hold three values, and a first row with five.\<close>

lemma row_with_excess:
  "parse_data_line (after_header 1 3 2 MF_FULL) ''1 1 0 4 5'' =
     (SR_OK,
      (after_header 1 3 2 MF_FULL)
        \<lparr>last_freq := 1, data_set := Some ([1, 1, 0, 4, 5] @ replicate 507 0),
         data_set_size := 512, data_set_count := 0, sweep_freq := [1, 0],
         sweep_data := [1, 0, 0, 0], sweep_count := 1, sweep_size := 2,
         session := [SR_DF_HEADER, SR_DF_FRAME_BEGIN,
                     SR_LOG_WARN ''more data than expected in the last data-set'']\<rparr>)"
  by (simp add: eval2_defs del: upt_rec_numeral)

lemma row_with_excess_tokens: "parse_data_line_numbers ''1 1 0 4 5'' = (SR_OK, [1, 1, 0, 4, 5])"
  by (simp add: eval2_defs del: upt_rec_numeral)

theorem excess_tokens_discarded_witness:
  "data_set_count (snd (parse_data_line (after_header 1 3 2 MF_FULL) ''1 1 0 4 5'')) = 0 \<and>
   sweep_count (snd (parse_data_line (after_header 1 3 2 MF_FULL) ''1 1 0 4 5'')) = 1 \<and>
   last_freq (snd (parse_data_line (after_header 1 3 2 MF_FULL) ''1 1 0 4 5'')) = 1 \<and>
   sweep_freq (snd (parse_data_line (after_header 1 3 2 MF_FULL) ''1 1 0 4 5'')) ! 0 = 1 \<and>
   sweep_data (snd (parse_data_line (after_header 1 3 2 MF_FULL) ''1 1 0 4 5'')) = [1, 0, 0, 0] \<and>
   (\<exists>old. Option.bind
             (move_matrix (snd (parse_data_line (after_header 1 3 2 MF_FULL) ''1 1 0 4 5''))
                [1, 1, 0] old)
             (convert_matrix (snd (parse_data_line (after_header 1 3 2 MF_FULL) ''1 1 0 4 5''))) =
           Some [1, 0, 0, 0]) \<and>
   (\<exists>before. session (snd (parse_data_line (after_header 1 3 2 MF_FULL) ''1 1 0 4 5'')) =
      before @ [SR_LOG_WARN ''more data than expected in the last data-set''])"
proof -
  let ?inc = "after_header 1 3 2 MF_FULL"
  let ?inc' = "snd (parse_data_line ?inc ''1 1 0 4 5'')"
  let ?vals = "[1, 1, 0, 4, 5 :: double]"
  have ne: "?vals \<noteq> []" by simp
  have ok: "parse_data_line ?inc ''1 1 0 4 5'' = (SR_OK, ?inc')"
    by (simp only: row_with_excess snd_conv)
  have inf: "snd (infer_ports ?inc ?vals) = ?inc"
    by (simp add: infer_ports_def infers_ports_def after_header_def)
  have pe: "pending ?inc = []" by (simp add: pending_def after_header_def)
  have nv: "num_vals_per_set ?inc' = 3" "state ?inc' = PS_DATA_LINES" "state ?inc = PS_DATA_LINES"
    "matrix_format ?inc' = MF_FULL" "sweep_data ?inc' = [1, 0, 0, 0]" "sweep_count ?inc = 0"
    "frequency_unit ?inc = 1"
    unfolding row_with_excess by (simp_all add: after_header_def)
  have nz: "num_vals_per_set ?inc' \<noteq> 0" using nv by simp
  have ex: "num_vals_per_set ?inc' < length (pending (snd (infer_ports ?inc ?vals)) @ ?vals)"
    unfolding inf pe nv by simp
  note T = excess_tokens_discarded [OF row_with_excess_tokens ne ok nz ex]
  from T have t1: "\<exists>before. session ?inc' =
               before @ [SR_LOG_WARN ''more data than expected in the last data-set'']"
    and t2: "data_set_count ?inc' = 0"
    and t3: "sweep_count ?inc' =
               (if state ?inc' = state ?inc then sweep_count (snd (infer_ports ?inc ?vals)) else 0) + 1"
    and t4: "last_freq ?inc' = hd (pending (snd (infer_ports ?inc ?vals)) @ ?vals)"
    and t5: "sweep_freq ?inc' ! (sweep_count ?inc' - 1) =
               hd (pending (snd (infer_ports ?inc ?vals)) @ ?vals) * frequency_unit ?inc"
    and t6: "state ?inc' = PS_DATA_LINES \<longrightarrow>
            (matrix_format ?inc' = MF_FULL \<or>
             num_ports ?inc' * num_ports ?inc' + num_ports ?inc' + 1 \<le> num_vals_per_set ?inc') \<longrightarrow>
            (\<exists>old. Option.bind
                      (move_matrix ?inc'
                         (take (num_vals_per_set ?inc') (pending (snd (infer_ports ?inc ?vals)) @ ?vals))
                         old)
                      (convert_matrix ?inc') =
                    Some (drop (wrap64 ((sweep_count ?inc' - 1) * data_set_entries ?inc'))
                            (sweep_data ?inc')))"
    by blast+
  have c: "sweep_count ?inc' = 1" using t3 unfolding inf nv by simp
  have l: "last_freq ?inc' = 1" using t4 unfolding inf pe by simp
  have "sweep_freq ?inc' ! (sweep_count ?inc' - 1) = 1" using t5 unfolding inf pe nv by simp
  then have f: "sweep_freq ?inc' ! 0 = 1" unfolding c by simp
  have w0: "wrap64 ((sweep_count ?inc' - 1) * data_set_entries ?inc') = 0"
    unfolding c by (simp add: wrap64_def)
  have tk: "take (num_vals_per_set ?inc') (pending (snd (infer_ports ?inc ?vals)) @ ?vals) = [1, 1, 0]"
    unfolding inf pe nv by simp
  have p: "\<exists>old. Option.bind (move_matrix ?inc' [1, 1, 0] old) (convert_matrix ?inc') =
             Some [1, 0, 0, 0]"
    using t6 nv(2,4) unfolding w0 tk nv(5) by simp
  show ?thesis using t1 t2 c l f nv(5) p by blast
qed

text \<open>
  The values 4 and 5 that exceed the first row do not start the next data set: the second
  point is the next row, with the frequency 6.
\<close>

theorem excess_tokens_do_not_start_next_set:
  "run (\<lambda>n. 0) [one_port_header @ ''1 1 0 4 5\<newline>6 1 0\<newline>[End]\<newline>'', ''''] =
     (SR_OK,
      \<lparr>buf = [], sdi_ready = True,
       priv = (after_header 1 3 2 MF_FULL)
         \<lparr>last_freq := 6, data_set := Some ([6, 1, 0, 4, 5] @ replicate 507 0),
          data_set_size := 512, sweep_freq := [1, 6], sweep_data := [1, 0, 1, 0],
          sweep_size := 2,
          session := [SR_DF_HEADER, SR_DF_FRAME_BEGIN,
                      SR_LOG_WARN ''more data than expected in the last data-set'',
                      SR_DF_ANALOG SR_MQ_FREQUENCY SR_UNIT_HERTZ SR_MQFLAG_NONE [1, 6],
                      SR_DF_ANALOG SR_MQ_N_PORT_PARAMETER SR_UNIT_UNITLESS
                        (SR_MQFLAG_KIND KIND_SCATTERING_PARAMETERS) [1, 0, 1, 0],
                      SR_DF_FRAME_END, SR_DF_END]\<rparr>\<rparr>)"
  by (simp add: eval2_defs del: upt_rec_numeral)

lemma option_line_hz:
  "parse_option_line (init (\<lambda>n. 0)) ''# HZ S MA R 50'' =
     (SR_OK, (init (\<lambda>n. 0))\<lparr>frequency_unit := 1, number_format := FORMAT_MAGNITUDE_ANGLE,
        parameter_kind := KIND_SCATTERING_PARAMETERS, reference_resistance := 50\<rparr>)"
  by (simp add: eval2_defs del: upt_rec_numeral)

theorem stored_frequency_is_scaled_token_witness:
  "frequency_unit (snd (parse_option_line (init (\<lambda>n. 0)) ''# HZ S MA R 50'')) = 1 \<and>
   sweep_count (snd (move_data_to_sweep upper_row_loaded)) = 1 \<and>
   sweep_freq (snd (move_data_to_sweep upper_row_loaded)) ! 0 = 1 \<and>
   0 < sweep_freq (snd (move_data_to_sweep upper_row_loaded)) ! 0"
proof -
  let ?i1 = "snd (parse_option_line (init (\<lambda>n. 0)) ''# HZ S MA R 50'')"
  let ?inc' = "snd (move_data_to_sweep upper_row_loaded)"
  note T = stored_frequency_is_scaled_token
    [of "init (\<lambda>n. 0)" "''# HZ S MA R 50''" ?i1 upper_row_loaded ?inc']
  have a: "parse_option_line (init (\<lambda>n. 0)) ''# HZ S MA R 50'' = (SR_OK, ?i1)"
    by (simp only: option_line_hz snd_conv)
  have b: "move_data_to_sweep upper_row_loaded = (SR_OK, ?inc')"
    by (simp only: move_upper_row snd_conv)
  have c: "data_set upper_row_loaded = Some (1 # [1, 180, 2, 180, 3, 180] @ replicate 505 0)"
    "sweep_count upper_row_loaded = 0" "frequency_unit upper_row_loaded = 1"
    by (simp_all add: upper_row_loaded_def after_header_def)
  from T a have u: "frequency_unit ?i1 = 1 \<or> frequency_unit ?i1 = 1000 \<or>
      frequency_unit ?i1 = 1000000 \<or> frequency_unit ?i1 = 1000000000" by blast
  from T b obtain f rest where
    m: "data_set upper_row_loaded = Some (f # rest)"
       "sweep_count ?inc' = sweep_count upper_row_loaded + 1"
       "sweep_freq ?inc' ! sweep_count upper_row_loaded = f * frequency_unit upper_row_loaded"
       "0 < frequency_unit upper_row_loaded \<longrightarrow>
          (0 < sweep_freq ?inc' ! sweep_count upper_row_loaded \<longleftrightarrow> 0 < f)"
    by blast
  have f: "f = 1" using m(1) c(1) by simp
  have "frequency_unit ?i1 = 1" using u by (simp add: option_line_hz)
  then show ?thesis using m f c by simp
qed

text \<open>A version 1 file with the frequency \<open>-1\<close> is accepted, and \<open>-1\<close> is sent.\<close>

theorem negative_frequency_emitted:
  "run (\<lambda>n. 0) [v1_option_line @ ''-1 1 0\<newline>'', ''''] =
     (SR_OK,
      \<lparr>buf = [], sdi_ready = True,
       priv = (v1_first_row [-1, 1, 0])
         \<lparr>last_freq := - 1, reference_resistances := Some [50], num_ports := 1,
          num_vals_per_set := 3, data_set_count := 0,
          sweep_freq := [- 1, 0] @ replicate 510 0, sweep_data := [1, 0] @ replicate 1022 0,
          sweep_size := 512,
          session := [SR_DF_HEADER, SR_DF_FRAME_BEGIN,
                      SR_DF_ANALOG SR_MQ_RESISTANCE SR_UNIT_OHM SR_MQFLAG_REFERENCE [50],
                      SR_DF_ANALOG SR_MQ_FREQUENCY SR_UNIT_HERTZ SR_MQFLAG_NONE [- 1],
                      SR_DF_ANALOG SR_MQ_N_PORT_PARAMETER SR_UNIT_UNITLESS
                        (SR_MQFLAG_KIND KIND_SCATTERING_PARAMETERS) [1, 0],
                      SR_DF_FRAME_END, SR_DF_END]\<rparr>\<rparr>)"
  by (simp add: eval2_defs del: upt_rec_numeral)

section \<open>The chunker\<close>

subsection \<open>Normalisation\<close>

lemma c_str_id: "NUL \<notin> set s \<Longrightarrow> c_str s = s"
  by (auto simp: c_str_def takeWhile_eq_all_conv)

lemma toupper_cases:
  "g_ascii_toupper c = c \<or> (65 \<le> (of_char (g_ascii_toupper c) :: nat) \<and> (of_char (g_ascii_toupper c) :: nat) \<le> 90)"
  by (cases c) (auto simp: g_ascii_toupper_def)

lemma toupper_nul: "g_ascii_toupper c = NUL \<longleftrightarrow> c = NUL"
  using toupper_cases [of c] by (auto simp: NUL_def g_ascii_toupper_def)

lemma toupper_nul2: "NUL = g_ascii_toupper c \<longleftrightarrow> c = NUL"
  using toupper_nul [of c] by metis

lemma toupper_idem: "g_ascii_toupper (g_ascii_toupper c) = g_ascii_toupper c"
  using toupper_cases [of c] by (auto simp: g_ascii_toupper_def)

lemma norm_char_nul: "norm_char c = NUL \<longleftrightarrow> c = NUL"
  using toupper_nul [of c] by (auto simp: norm_char_def Let_def NUL_def)

lemma norm_char_nul2: "NUL = norm_char c \<longleftrightarrow> c = NUL"
  using norm_char_nul [of c] by metis

lemma toupper_fix: "g_ascii_toupper (CHR '' '') = CHR '' ''" "g_ascii_toupper (CHR 0x0A) = CHR 0x0A"
  by (simp_all add: g_ascii_toupper_def)

lemma norm_char_idem: "norm_char (norm_char c) = norm_char c"
  by (auto simp: norm_char_def Let_def toupper_idem toupper_fix)

lemma replace_char_map:
  "NUL \<notin> set s \<Longrightarrow> replace_char a b s = map (\<lambda>c. if c = a then b else c) s"
  by (simp add: replace_char_def c_str_id)

lemma normalise_map:
  assumes "NUL \<notin> set s"
  shows "normalise s = map norm_char s"
proof -
  have 1: "NUL \<notin> set (map g_ascii_toupper s)" using assms by (induction s) (auto simp: toupper_nul2)
  have 2: "NUL \<notin> set (map (\<lambda>c. if c = CHR 0x09 then CHR '' '' else c) (map g_ascii_toupper s))"
    using 1 by (auto simp: NUL_def)
  show ?thesis
    unfolding normalise_def replace_char_map [OF 1] replace_char_map [OF 2]
    by (simp add: norm_char_def Let_def)
qed

lemma map_norm_char_nul_free: "NUL \<notin> set s \<Longrightarrow> NUL \<notin> set (map norm_char s)"
  by (induction s) (auto simp: norm_char_nul2)

lemma normalise_nul_free: "NUL \<notin> set s \<Longrightarrow> NUL \<notin> set (normalise s)"
  by (simp only: normalise_map map_norm_char_nul_free not_False_eq_True)

lemma normalise_append:
  "NUL \<notin> set s \<Longrightarrow> NUL \<notin> set t \<Longrightarrow> normalise (s @ t) = normalise s @ normalise t"
  by (simp add: normalise_map)

lemma normalise_idem:
  assumes "NUL \<notin> set s"
  shows "normalise (normalise s) = normalise s"
proof -
  have "normalise (normalise s) = map norm_char (normalise s)"
    by (rule normalise_map) (rule normalise_nul_free [OF assms])
  then show ?thesis by (simp add: normalise_map [OF assms] norm_char_idem)
qed

text \<open>The text before and after the last newline.\<close>

lemma cut_unique:
  assumes "LF \<notin> set p"
  shows "partial_line (c @ LF # p) = p" "complete_text (c @ LF # p) = c"
proof -
  have r: "rev (c @ LF # p) = rev p @ LF # rev c" by simp
  have a: "\<And>x. x \<in> set (rev p) \<Longrightarrow> x \<noteq> LF" using assms by auto
  have "takeWhile (\<lambda>c. c \<noteq> LF) (rev p @ LF # rev c) =
          rev p @ takeWhile (\<lambda>c. c \<noteq> LF) (LF # rev c)"
    by (rule takeWhile_append2) (rule a)
  then show "partial_line (c @ LF # p) = p"
    unfolding partial_line_def r by simp
  have "dropWhile (\<lambda>c. c \<noteq> LF) (rev p @ LF # rev c) =
          dropWhile (\<lambda>c. c \<noteq> LF) (LF # rev c)"
    by (rule dropWhile_append2) (rule a)
  then show "complete_text (c @ LF # p) = c"
    unfolding complete_text_def r by simp
qed

lemma cut_exists:
  assumes "LF \<in> set t"
  shows "t = complete_text t @ LF # partial_line t \<and> LF \<notin> set (partial_line t)"
proof -
  from assms have "LF \<in> set (rev t)" by simp
  then obtain ys zs where s: "rev t = ys @ LF # zs" "LF \<notin> set ys"
    by (meson split_list_first)
  have "t = rev (rev t)" by simp
  also have "\<dots> = rev zs @ LF # rev ys" unfolding s by simp
  finally have t: "t = rev zs @ LF # rev ys" .
  have n: "LF \<notin> set (rev ys)" using s by simp
  show ?thesis using cut_unique [OF n, of "rev zs"] t n by simp
qed

lemma partial_line_no_newline: "LF \<notin> set t \<Longrightarrow> partial_line t = t"
proof -
  assume "LF \<notin> set t"
  then have "\<forall>x\<in>set (rev t). x \<noteq> LF" by auto
  then have tw: "takeWhile (\<lambda>c. c \<noteq> LF) (rev t) = rev t"
    by (rule takeWhile_eq_all_conv [THEN iffD2])
  show ?thesis unfolding partial_line_def tw by simp
qed

lemma partial_line_set: "set (partial_line t) \<subseteq> set t"
  unfolding partial_line_def using set_takeWhileD by fastforce

lemma split_pieces_ne: "split_pieces d s \<noteq> []"
  by (induction s) (auto split: list.splits)

lemma split_pieces_append:
  "split_pieces d (x @ d # y) = split_pieces d x @ split_pieces d y"
  by (induction x) (auto split: list.splits simp: split_pieces_ne)

lemma complete_lines_append:
  "complete_lines (u @ v) = complete_lines u @ complete_lines (partial_line u @ v)"
proof (cases "LF \<in> set u")
  case False
  then show ?thesis by (simp add: complete_lines_def partial_line_no_newline)
next
  case True
  from cut_exists [OF True] obtain cu pu where
    u: "u = cu @ LF # pu" "LF \<notin> set pu" "complete_text u = cu" "partial_line u = pu"
    by metis
  show ?thesis
  proof (cases "LF \<in> set v")
    case False
    then have n: "LF \<notin> set (pu @ v)" using u by simp
    have "u @ v = cu @ LF # (pu @ v)" using u by simp
    then have "complete_text (u @ v) = cu" using cut_unique [OF n] by simp
    then show ?thesis using u n by (simp add: complete_lines_def)
  next
    case v: True
    from cut_exists [OF v] obtain cv pv where
      v': "v = cv @ LF # pv" "LF \<notin> set pv" "complete_text v = cv"
      by metis
    have "u @ v = (cu @ LF # pu @ cv) @ LF # pv" using u v' by simp
    then have a: "complete_text (u @ v) = cu @ LF # pu @ cv"
      using cut_unique(2) [OF v'(2)] by metis
    have "pu @ v = (pu @ cv) @ LF # pv" using v' by simp
    then have b: "complete_text (pu @ v) = pu @ cv"
      using cut_unique(2) [OF v'(2)] by metis
    show ?thesis using u v a b True
      by (simp add: complete_lines_def split_pieces_append)
  qed
qed

lemma partial_line_append:
  "partial_line (u @ v) = partial_line (partial_line u @ v)"
proof (cases "LF \<in> set u")
  case False
  then show ?thesis by (simp add: partial_line_no_newline)
next
  case True
  from cut_exists [OF True] obtain cu pu where
    u: "u = cu @ LF # pu" "LF \<notin> set pu" "partial_line u = pu"
    by metis
  show ?thesis
  proof (cases "LF \<in> set v")
    case False
    then have n: "LF \<notin> set (pu @ v)" using u by simp
    have "u @ v = cu @ LF # (pu @ v)" using u by simp
    then have "partial_line (u @ v) = pu @ v" using cut_unique [OF n] by simp
    then show ?thesis using u n by (simp add: partial_line_no_newline)
  next
    case v: True
    from cut_exists [OF v] obtain cv pv where
      v': "v = cv @ LF # pv" "LF \<notin> set pv"
      by metis
    have "u @ v = (cu @ LF # pu @ cv) @ LF # pv" using u v' by simp
    then have a: "partial_line (u @ v) = pv"
      using cut_unique(1) [OF v'(2)] by metis
    have "pu @ v = (pu @ cv) @ LF # pv" using v' by simp
    then have b: "partial_line (pu @ v) = pv"
      using cut_unique(1) [OF v'(2)] by metis
    show ?thesis using u a b by simp
  qed
qed

text \<open>\<^verbatim>\<open>g_strrstr_len\<close> finds the last newline.\<close>

lemma strrchr_from_none: "c \<notin> set s \<Longrightarrow> strrchr_from k s c = None"
  by (induction s arbitrary: k) auto

lemma strrchr_from_last:
  "c \<notin> set p \<Longrightarrow> strrchr_from k (x @ c # p) c = Some (k + length x)"
  by (induction x arbitrary: k) (auto simp: strrchr_from_none)

lemma last_newline:
  assumes "NUL \<notin> set t"
  shows "g_strrstr_len t (length t) LF =
           (if LF \<in> set t then Some (length (complete_text t)) else None)"
proof (cases "LF \<in> set t")
  case False
  then show ?thesis using assms by (simp add: g_strrstr_len_def c_str_id strrchr_from_none)
next
  case True
  from cut_exists [OF True] obtain cu pu where
    u: "t = cu @ LF # pu" "LF \<notin> set pu" "complete_text t = cu" by metis
  have "strrchr_from 0 t LF = Some (length cu)"
    unfolding u(1) using strrchr_from_last [OF u(2), of 0 cu] by simp
  then show ?thesis using True assms u by (simp add: g_strrstr_len_def c_str_id)
qed

text \<open>The loop over the lines.\<close>

lemma process_lines_with_empty:
  "process_lines_with h inc ([] # ls) = process_lines_with h inc ls"
  by (simp add: strip_comment_def g_strstrip_def g_strchomp_def g_strchug_def char0_def)

lemma process_lines_with_split:
  "process_lines_with h inc (g_strsplit s d) = process_lines_with h inc (split_pieces d s)"
proof (cases "s = []")
  case True
  then show ?thesis using process_lines_with_empty [of h inc "[]"] by (simp add: g_strsplit_def)
next
  case False
  then show ?thesis by (simp add: g_strsplit_def)
qed

lemma process_lines_with_append:
  "process_lines_with h inc (ls @ ms) =
     (case process_lines_with h inc ls of
        (r, inc1) \<Rightarrow> if r \<noteq> SR_OK then (r, inc1) else process_lines_with h inc1 ms)"
  by (induction ls arbitrary: inc) (auto simp: Let_def split: prod.splits)

lemma process_lines_with_started:
  "keeps_started h \<Longrightarrow> started inc \<Longrightarrow> started (snd (process_lines_with h inc ls))"
proof (induction ls arbitrary: inc)
  case Nil
  then show ?case by simp
next
  case (Cons l ls)
  show ?case
  proof (cases "char0 (strip_comment l) = NUL")
    case True
    then show ?thesis using Cons by (simp add: Let_def)
  next
    case False
    obtain r inc1 where h: "h inc (strip_comment l) = (r, inc1)" by (cases "h inc (strip_comment l)")
    have s: "started inc1" using Cons.prems h unfolding keeps_started_def by (metis snd_conv)
    show ?thesis using False h s Cons.IH [OF Cons.prems(1) s] by (simp add: Let_def)
  qed
qed

lemma begin_session_started: "started (begin_session inc)"
  by (simp add: begin_session_def sr_session_send_def)

lemma begin_session_id: "started inc \<Longrightarrow> begin_session inc = inc"
  by (simp add: begin_session_def)

subsection \<open>One call of \<^verbatim>\<open>receive\<close>\<close>

lemma normalise_Nil: "normalise [] = []"
  by (simp add: normalise_def replace_char_def c_str_def)

lemma normalise_fixed:
  assumes "NUL \<notin> set s" "\<forall>c\<in>set s. norm_char c = c"
  shows "normalise s = s"
  unfolding normalise_map [OF assms(1)] using assms(2) by (simp add: map_idI)

lemma normalise_partial_line:
  assumes "NUL \<notin> set s"
  shows "normalise (partial_line (normalise s)) = partial_line (normalise s)"
    and "NUL \<notin> set (partial_line (normalise s))"
proof -
  have sub: "set (partial_line (normalise s)) \<subseteq> set (map norm_char s)"
    using partial_line_set [of "normalise s"] by (simp only: normalise_map [OF assms])
  show n: "NUL \<notin> set (partial_line (normalise s))"
    using sub map_norm_char_nul_free [OF assms] by blast
  have "\<forall>c\<in>set (partial_line (normalise s)). norm_char c = c"
    using sub by (auto simp: norm_char_idem)
  then show "normalise (partial_line (normalise s)) = partial_line (normalise s)"
    using n by (rule normalise_fixed [rotated])
qed

lemma c_str_cut:
  assumes "NUL \<notin> set x"
  shows "c_str ((x @ c # y)[length x := NUL]) = x"
proof -
  have "\<And>a. a \<in> set x \<Longrightarrow> a \<noteq> NUL" using assms by auto
  then have "takeWhile (\<lambda>c. c \<noteq> NUL) (x @ NUL # y) = x @ takeWhile (\<lambda>c. c \<noteq> NUL) (NUL # y)"
    by (rule takeWhile_append2)
  then show ?thesis by (simp add: c_str_def list_update_append)
qed

lemma drop_cut: "drop (length x + 1) ((x @ c # y)[length x := NUL]) = y"
  by (simp add: list_update_append)

lemma process_buffer_with_flush:
  assumes nb: "NUL \<notin> set (buf inp)"
  shows "process_buffer_with h inp False =
     (case process_lines_with h (begin_session (priv inp))
             (complete_lines (normalise (buf inp))) of
        (r, inc1) \<Rightarrow> (r, inp\<lparr>buf := partial_line (normalise (buf inp)), priv := inc1\<rparr>))"
proof -
  define t where "t = normalise (buf inp)"
  define inc0 where "inc0 = begin_session (priv inp)"
  have nt: "NUL \<notin> set t" unfolding t_def using nb by (rule normalise_nul_free)
  have pb: "process_buffer_with h inp False =
     (if buf inp = [] then (SR_OK, inp\<lparr>priv := inc0\<rparr>)
      else (case g_strrstr_len t (length t) LF of
              None \<Rightarrow> (SR_OK, inp\<lparr>buf := t, priv := inc0\<rparr>)
            | Some p \<Rightarrow>
                (case process_lines_with h inc0 (g_strsplit (c_str (t[p := NUL])) LF) of
                   (r, inc1) \<Rightarrow> (r, inp\<lparr>buf := drop (p + 1) (t[p := NUL]), priv := inc1\<rparr>))))"
    by (simp add: process_buffer_with_def Let_def t_def inc0_def normalise_def LF_def
        split: option.splits)
  note ln = last_newline [OF nt]
  show ?thesis
  proof (cases "buf inp = []")
    case True
    then have "t = []" by (simp add: t_def normalise_Nil)
    then show ?thesis unfolding pb t_def [symmetric] inc0_def [symmetric] using True
      by (simp add: complete_lines_def partial_line_def)
  next
    case ne: False
    show ?thesis
    proof (cases "LF \<in> set t")
      case False
      then show ?thesis unfolding pb t_def [symmetric] inc0_def [symmetric] using ne ln
        by (simp add: complete_lines_def partial_line_no_newline)
    next
      case True
      from cut_exists [OF True] obtain cu pu where
        u: "t = cu @ LF # pu" "LF \<notin> set pu" "complete_text t = cu" "partial_line t = pu"
        by metis
      have ncu: "NUL \<notin> set cu" using nt u(1) by auto
      have c1: "c_str (t[length cu := NUL]) = cu" unfolding u(1) by (rule c_str_cut [OF ncu])
      have c2: "drop (Suc (length cu)) (t[length cu := NUL]) = pu"
        unfolding u(1) using drop_cut [of cu LF pu] by simp
      show ?thesis unfolding pb t_def [symmetric] inc0_def [symmetric] using ne ln True
        by (simp add: complete_lines_def u(3,4) c1 c2 process_lines_with_split)
    qed
  qed
qed

lemma receive_with_step:
  assumes rdy: "sdi_ready inp" and nb: "NUL \<notin> set (buf inp)" and nc: "NUL \<notin> set chunk"
  shows "receive_with h inp chunk =
     (case process_lines_with h (begin_session (priv inp))
             (complete_lines (normalise (buf inp @ chunk))) of
        (r, inc1) \<Rightarrow> (r, inp\<lparr>buf := partial_line (normalise (buf inp @ chunk)), priv := inc1\<rparr>))"
proof -
  have n: "NUL \<notin> set (buf (inp\<lparr>buf := buf inp @ chunk\<rparr>))" using nb nc by simp
  show ?thesis
    using rdy by (simp add: receive_with_def Let_def process_buffer_with_flush [OF n])
qed

subsection \<open>A sequence of calls\<close>

lemma receive_all_with_lines:
  assumes "cs \<noteq> []" "sdi_ready inp" "NUL \<notin> set (buf inp)" "\<forall>c\<in>set cs. NUL \<notin> set c"
    "keeps_started h"
  shows "fst (receive_all_with h inp cs) = fst (delivered h (priv inp) (buf inp @ concat cs)) \<and>
         priv (snd (receive_all_with h inp cs)) = snd (delivered h (priv inp) (buf inp @ concat cs)) \<and>
         sdi_ready (snd (receive_all_with h inp cs)) \<and>
         (fst (receive_all_with h inp cs) = SR_OK \<longrightarrow>
            buf (snd (receive_all_with h inp cs)) = partial_line (normalise (buf inp @ concat cs)))"
  using assms
proof (induction cs arbitrary: inp)
  case Nil
  then show ?case by simp
next
  case (Cons c cs)
  let ?t1 = "normalise (buf inp @ c)"
  have nc: "NUL \<notin> set c" and ncs: "\<forall>c\<in>set cs. NUL \<notin> set c" using Cons.prems(4) by auto
  have nbc: "NUL \<notin> set (buf inp @ c)" using Cons.prems(3) nc by simp
  obtain r1 inc1 where
    p1: "process_lines_with h (begin_session (priv inp)) (complete_lines ?t1) = (r1, inc1)"
    by (cases "process_lines_with h (begin_session (priv inp)) (complete_lines ?t1)")
  define inp1 where "inp1 = inp\<lparr>buf := partial_line ?t1, priv := inc1\<rparr>"
  have step: "receive_with h inp c = (r1, inp1)"
    unfolding receive_with_step [OF Cons.prems(2,3) nc] p1 inp1_def by simp
  show ?case
  proof (cases "cs = []")
    case True
    then show ?thesis using step p1 Cons.prems(2)
      by (simp add: delivered_def inp1_def)
  next
    case False
    have ncc: "NUL \<notin> set (concat cs)" using ncs by auto
    have t: "normalise (buf inp @ concat (c # cs)) = ?t1 @ normalise (concat cs)"
      using normalise_append [OF nbc ncc] by simp
    have cl: "complete_lines (normalise (buf inp @ concat (c # cs))) =
                complete_lines ?t1 @ complete_lines (partial_line ?t1 @ normalise (concat cs))"
      unfolding t by (rule complete_lines_append)
    have pl: "partial_line (normalise (buf inp @ concat (c # cs))) =
                partial_line (partial_line ?t1 @ normalise (concat cs))"
      unfolding t by (rule partial_line_append)
    have d: "delivered h (priv inp) (buf inp @ concat (c # cs)) =
               (if r1 \<noteq> SR_OK then (r1, inc1)
                else process_lines_with h inc1
                       (complete_lines (partial_line ?t1 @ normalise (concat cs))))"
      unfolding delivered_def cl process_lines_with_append p1 by simp
    show ?thesis
    proof (cases "r1 = SR_OK")
      case bad: False
      then show ?thesis using step d Cons.prems(2) by (simp add: inp1_def)
    next
      case True
      have st: "started inc1"
        using process_lines_with_started [OF Cons.prems(5) begin_session_started,
            of "priv inp" "complete_lines ?t1"] p1 by simp
      have b1: "buf inp1 = partial_line ?t1" "priv inp1 = inc1" "sdi_ready inp1"
        using Cons.prems(2) by (simp_all add: inp1_def)
      have n1: "NUL \<notin> set (buf inp1)"
        unfolding b1 by (rule normalise_partial_line(2) [OF nbc])
      have t1: "normalise (buf inp1 @ concat cs) = partial_line ?t1 @ normalise (concat cs)"
        unfolding b1 using normalise_append [OF n1 [unfolded b1] ncc]
          normalise_partial_line(1) [OF nbc] by simp
      note IH = Cons.IH [OF False b1(3) n1 ncs Cons.prems(5)]
      have d1: "delivered h (priv inp1) (buf inp1 @ concat cs) =
                  delivered h (priv inp) (buf inp @ concat (c # cs))"
        unfolding d using True
        by (simp add: delivered_def t1 b1(2) begin_session_id [OF st])
      have r: "receive_all_with h inp (c # cs) = receive_all_with h inp1 cs"
        using step True by simp
      show ?thesis unfolding r using IH unfolding d1 t1 pl by simp
    qed
  qed
qed

text \<open>At the end of the input the whole buffer is split.\<close>

lemma process_buffer_with_eof:
  assumes nb: "NUL \<notin> set (buf inp)"
  shows "process_buffer_with h inp True =
     (case process_lines_with h (begin_session (priv inp)) (g_strsplit (normalise (buf inp)) LF) of
        (r, inc1) \<Rightarrow> (r, inp\<lparr>buf := [], priv := inc1\<rparr>))"
proof -
  define t where "t = normalise (buf inp)"
  have nt: "NUL \<notin> set t" unfolding t_def using nb by (rule normalise_nul_free)
  have pb: "process_buffer_with h inp True =
     (if buf inp = [] then (SR_OK, inp\<lparr>priv := begin_session (priv inp)\<rparr>)
      else (case process_lines_with h (begin_session (priv inp)) (g_strsplit (c_str t) LF) of
              (r, inc1) \<Rightarrow> (r, inp\<lparr>buf := drop (length t) t, priv := inc1\<rparr>)))"
    by (simp add: process_buffer_with_def Let_def t_def normalise_def LF_def)
  show ?thesis
  proof (cases "buf inp = []")
    case True
    then show ?thesis unfolding pb by (simp add: normalise_Nil g_strsplit_def)
  next
    case False
    then show ?thesis unfolding pb t_def [symmetric] by (simp add: c_str_id [OF nt])
  qed
qed

text \<open>The state machine never clears \<open>started\<close>.\<close>

lemma sr_started:
  "started (sr_err m inc) = started inc" "started (sr_warn m inc) = started inc"
  "started (sr_session_send p inc) = started inc"
  by (simp_all add: sr_err_def sr_warn_def sr_session_send_def)

lemma send_reference_information_started:
  "send_reference_information inc = (r, inc') \<Longrightarrow> started inc' = started inc"
  by (auto simp: send_reference_information_def Let_def sr_started
      split: option.splits if_splits)

lemma send_sweep_information_started:
  "send_sweep_information inc = (r, inc') \<Longrightarrow> started inc' = started inc"
  by (auto simp: send_sweep_information_def Let_def sr_started split: if_splits)

lemma prepare_data_set_memory_started:
  "prepare_data_set_memory inc n = (r, inc') \<Longrightarrow> started inc' = started inc"
  by (auto simp: prepare_data_set_memory_def Let_def sr_started
      split: option.splits if_splits)

lemma add_data_to_set_started:
  "add_data_to_set inc vals = (r, inc') \<Longrightarrow> started inc' = started inc"
  by (auto simp: add_data_to_set_def Let_def
      dest: prepare_data_set_memory_started
      split: option.splits if_splits prod.splits)

lemma prepare_sweep_mem_started:
  "prepare_sweep_mem inc = (r, inc') \<Longrightarrow> started inc' = started inc"
  by (auto simp: prepare_sweep_mem_def Let_def sr_started
      split: option.splits if_splits)

lemma move_data_to_sweep_started:
  "move_data_to_sweep inc = (r, inc') \<Longrightarrow> started inc' = started inc"
  by (auto simp: move_data_to_sweep_def Let_def
      dest: prepare_sweep_mem_started
      split: option.splits if_splits prod.splits)

lemma parse_option_line_started_snd:
  "started (snd (parse_option_line inc line)) = started inc"
proof -
  define l where "l = line[0 := CHR '' ''] @ '' ''"
  define unit_res :: "ret + double" where "unit_res = (case strstr l ''HZ '' of
                        Some p \<Rightarrow>
                          (if p = 0 then Inl UNDEFINED
                           else if l ! (p - 1) = CHR ''K'' then Inr 1000
                           else if l ! (p - 1) = CHR ''M'' then Inr 1000000
                           else if l ! (p - 1) = CHR ''G'' then Inr 1000000000
                           else if l ! (p - 1) = CHR '' '' then Inr 1
                           else Inl SR_ERR)
                      | None \<Rightarrow> Inr 1000000000)"
  have e: "parse_option_line inc line =
      (case unit_res of
           Inl SR_ERR \<Rightarrow> (SR_ERR, sr_err ''option line no known unit prefix found'' inc)
         | Inl r \<Rightarrow> (r, inc)
         | Inr u \<Rightarrow>
             (let inc1 = inc\<lparr>frequency_unit := u\<rparr>;
                  inc2 = inc1\<lparr>number_format :=
                           (if strstr l '' DB '' \<noteq> None then FORMAT_DB_ANGLE
                            else if strstr l '' MA '' \<noteq> None then FORMAT_MAGNITUDE_ANGLE
                            else if strstr l '' RI '' \<noteq> None then FORMAT_REAL_IMAGINARY
                            else FORMAT_MAGNITUDE_ANGLE)\<rparr>;
                  inc3 = inc2\<lparr>parameter_kind :=
                           (if strstr l '' S '' \<noteq> None then KIND_SCATTERING_PARAMETERS
                            else if strstr l '' Y '' \<noteq> None then KIND_ADMITTANCE_PARAMETERS
                            else if strstr l '' Z '' \<noteq> None then KIND_IMPEDANCE_PARAMETERS
                            else if strstr l '' G '' \<noteq> None then KIND_HYBRID_G_PARAMETERS
                            else if strstr l '' H '' \<noteq> None then KIND_HYBRID_H_PARAMETERS
                            else KIND_SCATTERING_PARAMETERS)\<rparr>
              in case strstr l '' R '' of
                   Some p \<Rightarrow>
                     (case sr_atod (g_strchug (drop (p + 3) l)) of
                        Some v \<Rightarrow> (SR_OK, inc3\<lparr>reference_resistance := v\<rparr>)
                      | None \<Rightarrow> (SR_ERR, inc3))
                 | None \<Rightarrow> (SR_OK, inc3\<lparr>reference_resistance := 50\<rparr>)))"
    unfolding parse_option_line_def l_def unit_res_def Let_def ..
  show ?thesis
  proof (cases unit_res)
    case (Inl r)
    then show ?thesis unfolding e by (cases r) (simp_all add: sr_started)
  next
    case (Inr u)
    then show ?thesis unfolding e
      by (simp add: Let_def split: option.split)
  qed
qed

lemma parse_option_line_started:
  "parse_option_line inc line = (r, inc') \<Longrightarrow> started inc' = started inc"
  using parse_option_line_started_snd [of inc line] by simp

lemma parse_version_line_started:
  "parse_version_line inc line = (r, inc') \<Longrightarrow> started inc' = started inc"
  by (auto simp: parse_version_line_def Let_def split: if_splits)

lemma parse_references_started:
  "parse_references inc line = (r, inc') \<Longrightarrow> started inc' = started inc"
  by (auto simp: parse_references_def Let_def
      dest: send_reference_information_started
      split: option.splits if_splits prod.splits)

lemma parse_key_line_started:
  "parse_key_line inc line = (r, inc') \<Longrightarrow> started inc' = started inc"
  by (auto simp: parse_key_line_def Let_def sr_started
      dest: parse_references_started
      split: option.splits if_splits)

lemma calc_num_ports_started:
  "calc_num_ports inc = (r, inc') \<Longrightarrow> started inc' = started inc"
  by (auto simp: calc_num_ports_def Let_def sr_started split: if_splits)

lemma start_noise_data_started:
  "start_noise_data inc = (r, inc') \<Longrightarrow> started inc' = started inc"
  by (auto simp: start_noise_data_def dest: send_sweep_information_started split: prod.splits)

lemma parse_data_line_started:
  assumes "parse_data_line inc line = (r, inc')"
  shows "started inc' = started inc"
proof -
  obtain r0 vals where n: "parse_data_line_numbers line = (r0, vals)"
    by (cases "parse_data_line_numbers line")
  show ?thesis
  proof (cases "r0 \<noteq> SR_OK \<or> length vals = 0")
    case True
    then show ?thesis using assms n
      by (auto simp: parse_data_line_def sr_started split: if_splits)
  next
    case False
    define s1 where "s1 = (if num_ports inc = 0 \<and> file_version inc = 1 \<and>
                       data_set_count inc \<noteq> 0 \<and> length vals mod 2 \<noteq> 0
                    then (case calc_num_ports inc of
                            (ra, ia) \<Rightarrow>
                              (if ra \<noteq> SR_OK then (ra, ia)
                               else (case send_reference_information ia of
                                       (rb, ib) \<Rightarrow>
                                         (if rb \<noteq> SR_OK then (rb, ib)
                                          else move_data_to_sweep ib))))
                    else (SR_OK, inc))"
    obtain r1 inc1 where s1: "s1 = (r1, inc1)" by (cases s1)
    have a1: "started inc1 = started inc"
      using s1 unfolding s1_def
      by (auto dest: calc_num_ports_started send_reference_information_started
          move_data_to_sweep_started split: if_splits prod.splits)
    obtain r2 inc2 where s2: "(if r1 = SR_OK then add_data_to_set inc1 vals else (r1, inc1)) = (r2, inc2)"
      by (cases "if r1 = SR_OK then add_data_to_set inc1 vals else (r1, inc1)")
    have a2: "started inc2 = started inc1"
      using s2 by (auto dest: add_data_to_set_started split: if_splits)
    obtain r3 inc3 where s3: "(if file_version inc2 = 1 \<and> state inc2 = PS_DATA_LINES \<and> r2 = SR_OK \<and>
                                 sweep_count inc2 \<noteq> 0 \<and> data_set_count inc2 \<noteq> 0 \<and>
                                 (case data_set inc2 of
                                    Some (f # fs) \<Rightarrow> last_freq inc2 \<ge> f
                                  | _ \<Rightarrow> False)
                              then start_noise_data inc2
                              else (r2, inc2)) = (r3, inc3)"
      by (cases "if file_version inc2 = 1 \<and> state inc2 = PS_DATA_LINES \<and> r2 = SR_OK \<and>
                                 sweep_count inc2 \<noteq> 0 \<and> data_set_count inc2 \<noteq> 0 \<and>
                                 (case data_set inc2 of
                                    Some (f # fs) \<Rightarrow> last_freq inc2 \<ge> f
                                  | _ \<Rightarrow> False)
                              then start_noise_data inc2
                              else (r2, inc2)")
    have a3: "started inc3 = started inc2"
      using s3 by (auto dest: start_noise_data_started split: if_splits)
    have pd: "parse_data_line inc line =
            (if r3 = SR_OK \<and> num_vals_per_set inc3 \<noteq> 0
             then (let inc4 = (if data_set_count inc3 > num_vals_per_set inc3
                               then sr_warn ''more data than expected in the last data-set'' inc3
                               else inc3)
                   in if data_set_count inc4 \<ge> num_vals_per_set inc4
                      then move_data_to_sweep inc4
                      else (r3, inc4))
             else (r3, inc3))"
      unfolding parse_data_line_def n prod.case s1 [unfolded s1_def] s2 s3
      using False by simp
    have "(if r3 = SR_OK \<and> num_vals_per_set inc3 \<noteq> 0
             then (let inc4 = (if data_set_count inc3 > num_vals_per_set inc3
                               then sr_warn ''more data than expected in the last data-set'' inc3
                               else inc3)
                   in if data_set_count inc4 \<ge> num_vals_per_set inc4
                      then move_data_to_sweep inc4
                      else (r3, inc4))
             else (r3, inc3)) = (r, inc')"
      using assms unfolding pd .
    then have "started inc' = started inc3"
      by (auto simp: Let_def sr_started dest: move_data_to_sweep_started split: if_splits)
    then show ?thesis using a1 a2 a3 by simp
  qed
qed

lemma process_line_started:
  "process_line inc line = (r, inc') \<Longrightarrow> started inc' = started inc"
  by (auto simp: process_line_def sr_started
      dest: parse_option_line_started parse_version_line_started parse_key_line_started
        parse_data_line_started parse_references_started start_noise_data_started
        send_sweep_information_started
      split: if_splits parser_states.splits prod.splits)

lemma process_line_keeps_started: "keeps_started process_line"
  unfolding keeps_started_def using process_line_started by (metis prod.collapse)

text \<open>
  Claim C7, as amended. For an input buffer and chunks without a NUL byte: as long as no call
  of \<^verbatim>\<open>receive\<close> reaches \<^verbatim>\<open>process_buffer\<close> the chunks are only appended to the buffer.
  Otherwise the return value and the context are those of delivering to \<open>process_line\<close>, in
  their order and up to the first line that fails, the lines of the text before the last
  newline of all the text received (the buffer, then the chunks, after \<open>normalise\<close>); and when
  no line has failed the buffer is the text after that last newline. Nothing behind the last
  newline is delivered, however the text is cut into chunks.
\<close>

theorem partial_line_never_processed:
  assumes nb: "NUL \<notin> set (buf inp)" and nc: "\<forall>c\<in>set cs. NUL \<notin> set c"
  shows "(\<not> flushed inp cs \<longrightarrow>
            receive_all inp cs =
              (SR_OK, inp\<lparr>buf := buf inp @ concat cs, sdi_ready := (sdi_ready inp \<or> cs \<noteq> [])\<rparr>)) \<and>
         (flushed inp cs \<longrightarrow>
            fst (receive_all inp cs) =
              fst (delivered process_line (priv inp) (buf inp @ concat cs)) \<and>
            priv (snd (receive_all inp cs)) =
              snd (delivered process_line (priv inp) (buf inp @ concat cs)) \<and>
            sdi_ready (snd (receive_all inp cs)) \<and>
            (fst (receive_all inp cs) = SR_OK \<longrightarrow>
               buf (snd (receive_all inp cs)) = partial_line (normalise (buf inp @ concat cs))))"
proof (cases "sdi_ready inp")
  case True
  show ?thesis
  proof (cases "cs = []")
    case e: True
    then show ?thesis using True by (simp add: flushed_def receive_all_def)
  next
    case False
    then have f: "flushed inp cs" using True by (simp add: flushed_def)
    show ?thesis
      using receive_all_with_lines [OF False True nb nc process_line_keeps_started] f
      unfolding receive_all_def by simp
  qed
next
  case nr: False
  show ?thesis
  proof (cases cs)
    case Nil
    then show ?thesis using nr by (simp add: flushed_def receive_all_def)
  next
    case (Cons c cs')
    define inp1 where "inp1 = inp\<lparr>buf := buf inp @ c, sdi_ready := True\<rparr>"
    have st: "receive_with process_line inp c = (SR_OK, inp1)"
      using nr by (simp add: receive_with_def Let_def inp1_def)
    have r: "receive_all inp cs = receive_all_with process_line inp1 cs'"
      unfolding receive_all_def Cons using st by simp
    show ?thesis
    proof (cases "cs' = []")
      case True
      then show ?thesis unfolding r using nr Cons by (simp add: flushed_def inp1_def)
    next
      case False
      then have f: "flushed inp cs" using nr Cons by (cases cs') (simp_all add: flushed_def)
      have r1: "sdi_ready inp1" by (simp add: inp1_def)
      have n1: "NUL \<notin> set (buf inp1)" using nb nc Cons by (simp add: inp1_def)
      have nc': "\<forall>c\<in>set cs'. NUL \<notin> set c" using nc Cons by simp
      have t: "buf inp1 @ concat cs' = buf inp @ concat cs" "priv inp1 = priv inp"
        using Cons by (simp_all add: inp1_def)
      show ?thesis
        using receive_all_with_lines [OF False r1 n1 nc' process_line_keeps_started] f
        unfolding r t by simp
    qed
  qed
qed

text \<open>
  A chunk with a NUL byte: the buffer is read as a C string, so the two complete lines
  behind the NUL byte are not delivered and stay in the buffer, newlines included.
\<close>

theorem line_behind_nul_byte_not_delivered:
  "receive_all new_input
     [''# HZ S MA R 50\<newline>'', NUL # ''1 1 0\<newline>'', ''2 1 0\<newline>''] =
     (SR_OK,
      \<lparr>buf = NUL # ''1 1 0\<newline>2 1 0\<newline>'', sdi_ready = True,
       priv = (init (\<lambda>n. 0))
         \<lparr>frequency_unit := 1, reference_resistance := 50,
          parameter_kind := KIND_SCATTERING_PARAMETERS, number_format := FORMAT_MAGNITUDE_ANGLE,
          state := PS_DATA_LINES, file_version := 1, started := True,
          session := [SR_DF_HEADER, SR_DF_FRAME_BEGIN]\<rparr>\<rparr>)"
  by (simp add: eval2_defs del: upt_rec_numeral)

text \<open>
  A version 1 file in three chunks cut inside lines: the first call buffers, the later calls
  deliver the option line and two rows, and \<^verbatim>\<open>3 1 0\<close> stays in the buffer.
\<close>

lemma three_chunks_delivered:
  "delivered process_line (priv new_input)
     (buf new_input @
      concat [''# HZ S MA R 50\<newline>1 1'', '' 0\<newline>2 1 0\<newline>3 '', ''1 0'']) =
     (SR_OK, one_port_two_points)"
  by (simp add: eval2_defs delivered_def complete_lines_def complete_text_def normalise_def
      LF_def del: upt_rec_numeral)

lemma three_chunks_partial:
  "partial_line (normalise (buf new_input @
      concat [''# HZ S MA R 50\<newline>1 1'', '' 0\<newline>2 1 0\<newline>3 '', ''1 0''])) =
     ''3 1 0''"
  by (simp add: eval2_defs partial_line_def normalise_def LF_def del: upt_rec_numeral)

theorem partial_line_never_processed_witness:
  "fst (receive_all new_input
          [''# HZ S MA R 50\<newline>1 1'', '' 0\<newline>2 1 0\<newline>3 '', ''1 0'']) = SR_OK \<and>
   priv (snd (receive_all new_input
          [''# HZ S MA R 50\<newline>1 1'', '' 0\<newline>2 1 0\<newline>3 '', ''1 0''])) =
     one_port_two_points \<and>
   buf (snd (receive_all new_input
          [''# HZ S MA R 50\<newline>1 1'', '' 0\<newline>2 1 0\<newline>3 '', ''1 0''])) = ''3 1 0'' \<and>
   receive_all new_input [''# HZ S MA R 50\<newline>1 1''] =
     (SR_OK, new_input\<lparr>buf := ''# HZ S MA R 50\<newline>1 1'', sdi_ready := True\<rparr>)"
proof -
  let ?cs = "[''# HZ S MA R 50\<newline>1 1'', '' 0\<newline>2 1 0\<newline>3 '', ''1 0'']"
  let ?c1 = "[''# HZ S MA R 50\<newline>1 1'']"
  have nb: "NUL \<notin> set (buf new_input)" by (simp add: new_input_def)
  have nc: "\<forall>c\<in>set ?cs. NUL \<notin> set c" by (simp add: NUL_def)
  have n1: "\<forall>c\<in>set ?c1. NUL \<notin> set c" by (simp add: NUL_def)
  have f: "flushed new_input ?cs" "\<not> flushed new_input ?c1"
    by (simp_all add: flushed_def new_input_def)
  note T = partial_line_never_processed [OF nb nc]
  note T1 = partial_line_never_processed [OF nb n1]
  from T f(1) have a: "fst (receive_all new_input ?cs) = SR_OK"
    and b: "priv (snd (receive_all new_input ?cs)) = one_port_two_points"
    unfolding three_chunks_delivered by simp_all
  from T f(1) a have c: "buf (snd (receive_all new_input ?cs)) = ''3 1 0''"
    unfolding three_chunks_partial by blast
  from T1 f(2) have d: "receive_all new_input ?c1 =
     (SR_OK, new_input\<lparr>buf := ''# HZ S MA R 50\<newline>1 1'', sdi_ready := True\<rparr>)"
    by (simp add: new_input_def)
  show ?thesis using a b c d by blast
qed


end
